theory Spec2Isabelle
  imports Complex_Main
begin

chapter \<open>The program\<close>

text \<open>
  A shallow embedding of \<^verbatim>\<open>src/matrix_operations_mpi.cpp\<close>. The program is SPMD: every
  MPI process runs the same functions on its own memory, and the processes meet in
  \<^verbatim>\<open>MPI_Send\<close>/\<^verbatim>\<open>MPI_Recv\<close>, \<^verbatim>\<open>MPI_Allgather\<close> and \<^verbatim>\<open>MPI_Reduce\<close>. The model keeps
  one memory per rank (a function from rank to memory) and writes each collective as a
  function of the memories of all ranks. The OpenMP loops are modelled in their sequential
  order; their iterations write pairwise different cells.
\<close>

section \<open>Row partitioning\<close>

text \<open>
  \<^verbatim>\<open>matrix_multiply_mpi\<close>, \<^verbatim>\<open>matrix_inverse_mpi\<close> and \<^verbatim>\<open>save_matrix_distributed\<close> all
  compute the rows of a rank with the same three lines:
  \<^verbatim>\<open>
    int rows_per_proc = n / size;
    int start_row = rank * rows_per_proc;
    int end_row = (rank == size - 1) ? n : start_row + rows_per_proc;
  \<close>
  The communicator size is written \<open>psize\<close>. MPI guarantees \<open>0 < psize\<close> and
  \<open>rank < psize\<close>, and \<open>n\<close> is a dimension, so the C \<^verbatim>\<open>int\<close>s are natural numbers here;
  every value these lines compute is at most \<open>n\<close>, so none of them can overflow. The test
  \<^verbatim>\<open>rank == size - 1\<close> is written \<open>rank + 1 = psize\<close>: the same test on integers, without
  the truncated subtraction of \<open>nat\<close>.
\<close>

definition rows_per_proc :: "nat \<Rightarrow> nat \<Rightarrow> nat" where
  "rows_per_proc n psize = n div psize"

definition start_row :: "nat \<Rightarrow> nat \<Rightarrow> nat \<Rightarrow> nat" where
  "start_row rank psize n = rank * rows_per_proc n psize"

definition end_row :: "nat \<Rightarrow> nat \<Rightarrow> nat \<Rightarrow> nat" where
  "end_row rank psize n =
     (if rank + 1 = psize then n else start_row rank psize n + rows_per_proc n psize)"

text \<open>The rows that \<^verbatim>\<open>for (int i = start_row; i < end_row; i++)\<close> visits on one rank,
  and their number.\<close>

definition row_partition :: "nat \<Rightarrow> nat \<Rightarrow> nat \<Rightarrow> nat set" where
  "row_partition rank psize n = {start_row rank psize n ..< end_row rank psize n}"

definition partition_rows :: "nat \<Rightarrow> nat \<Rightarrow> nat \<Rightarrow> nat" where
  "partition_rows rank psize n = end_row rank psize n - start_row rank psize n"

section \<open>Process memory and messages\<close>

text \<open>
  A process's memory maps addresses (counted in \<^verbatim>\<open>double\<close>s) to values. A pointer
  \<^verbatim>\<open>double* p\<close> is the address of its first element and \<^verbatim>\<open>p[k]\<close> is the cell \<open>p + k\<close>, so
  two pointers may alias or overlap as they can in C. The element type is a parameter:
  the multiplication uses only \<open>0\<close>, \<open>+\<close> and \<open>*\<close> of it, the inversion an ordered field
  (\<^verbatim>\<open>fabs\<close>, \<^verbatim>\<open>/\<close>, \<^verbatim>\<open>-\<close>, \<^verbatim>\<open><\<close>); rounding of \<^verbatim>\<open>double\<close> arithmetic is not modelled.
  An index \<^verbatim>\<open>i * n + j\<close> with \<open>i, j < n\<close> is below \<open>n * n\<close>, the number of cells of a
  matrix buffer, which the allocations \<^verbatim>\<open>new double[n * n]\<close> need to fit an \<^verbatim>\<open>int\<close>; so
  indices are natural numbers.
\<close>

type_synonym addr = nat

type_synonym 'a mem = "addr \<Rightarrow> 'a"

text \<open>The buffer of \<open>len\<close> cells at \<open>p\<close>.\<close>

definition in_region :: "addr \<Rightarrow> nat \<Rightarrow> addr \<Rightarrow> bool" where
  "in_region p len a \<longleftrightarrow> p \<le> a \<and> a < p + len"

definition regions_disjoint :: "addr \<Rightarrow> addr \<Rightarrow> nat \<Rightarrow> bool" where
  "regions_disjoint p q len \<longleftrightarrow> p + len \<le> q \<or> q + len \<le> p"

text \<open>The \<open>count\<close> values a send takes from the buffer at \<open>p\<close>; storing a received
  message into the buffer at \<open>p\<close>.\<close>

definition read_block :: "'a mem \<Rightarrow> addr \<Rightarrow> nat \<Rightarrow> 'a list" where
  "read_block m p count = map (\<lambda>k. m (p + k)) [0..<count]"

definition write_block :: "'a mem \<Rightarrow> addr \<Rightarrow> 'a list \<Rightarrow> 'a mem" where
  "write_block m p xs = foldl (\<lambda>m k. m(p + k := xs ! k)) m [0..<length xs]"

text \<open>A memory whose first cells hold the given values (for concrete runs).\<close>

definition mem_of_list :: "'a::zero list \<Rightarrow> 'a mem" where
  "mem_of_list xs = (\<lambda>a. if a < length xs then xs ! a else 0)"

section \<open>Matrix multiplication\<close>

text \<open>
  The innermost loop of \<^verbatim>\<open>matrix_multiply_mpi\<close>:
  \<^verbatim>\<open>double sum = 0.0; for (k = 0; k < n; k++) sum += A[i * n + k] * B[k * n + j];\<close>
\<close>

definition inner_sum :: "'a::{zero,plus,times} mem \<Rightarrow> addr \<Rightarrow> addr \<Rightarrow> nat \<Rightarrow> nat \<Rightarrow> nat \<Rightarrow> 'a" where
  "inner_sum m A B n i j =
     foldl (\<lambda>sum k. sum + m (A + (i * n + k)) * m (B + (k * n + j))) 0 [0..<n]"

text \<open>The \<open>j\<close> loop with the store \<^verbatim>\<open>C[i * n + j] = sum\<close>, and the \<open>i\<close> loop over the rows
  of the rank.\<close>

definition multiply_row :: "'a::{zero,plus,times} mem \<Rightarrow> addr \<Rightarrow> addr \<Rightarrow> addr \<Rightarrow> nat \<Rightarrow> nat \<Rightarrow> 'a mem" where
  "multiply_row m A B C n i =
     foldl (\<lambda>m j. m(C + (i * n + j) := inner_sum m A B n i j)) m [0..<n]"

definition multiply_compute ::
  "'a::{zero,plus,times} mem \<Rightarrow> addr \<Rightarrow> addr \<Rightarrow> addr \<Rightarrow> nat \<Rightarrow> nat \<Rightarrow> nat \<Rightarrow> 'a mem" where
  "multiply_compute m A B C rank psize n =
     foldl (\<lambda>m i. multiply_row m A B C n i) m [start_row rank psize n ..< end_row rank psize n]"

text \<open>
  The loop nest is an OpenMP \<^verbatim>\<open>parallel for collapse(2)\<close>, so its iterations \<open>(i, j)\<close>
  may run in another order than the sequential one. The iterations in a given order:
\<close>

definition multiply_cells ::
  "'a::{zero,plus,times} mem \<Rightarrow> addr \<Rightarrow> addr \<Rightarrow> addr \<Rightarrow> nat \<Rightarrow> (nat \<times> nat) list \<Rightarrow> 'a mem" where
  "multiply_cells m A B C n cells =
     foldl (\<lambda>m (i, j). m(C + (i * n + j) := inner_sum m A B n i j)) m cells"

text \<open>
  The \<^verbatim>\<open>else\<close> branch of the gather: a rank other than 0 sends
  \<^verbatim>\<open>(end_row - start_row) * n\<close> values starting at \<^verbatim>\<open>&C[start_row * n]\<close>.
\<close>

definition multiply_send :: "'a mem \<Rightarrow> addr \<Rightarrow> nat \<Rightarrow> nat \<Rightarrow> nat \<Rightarrow> 'a list" where
  "multiply_send m C rank psize n =
     (let count = (end_row rank psize n - start_row rank psize n) * n
      in read_block m (C + start_row rank psize n * n) count)"

text \<open>
  \<^verbatim>\<open>MPI_Recv(buf, count, ...)\<close>: a message longer than \<open>count\<close> is a truncation error,
  which is fatal under the default error handler (\<open>None\<close>).
\<close>

definition mpi_recv :: "'a mem \<Rightarrow> addr \<Rightarrow> nat \<Rightarrow> 'a list \<Rightarrow> 'a mem option" where
  "mpi_recv m buf count msg =
     (if length msg \<le> count then Some (write_block m buf msg) else None)"

text \<open>The loop \<^verbatim>\<open>for (int p = 1; p < size; p++)\<close> of rank 0; \<open>sent p\<close> is the message
  of rank \<open>p\<close>.\<close>

fun multiply_gather ::
  "'a mem \<Rightarrow> addr \<Rightarrow> (nat \<Rightarrow> 'a list) \<Rightarrow> nat \<Rightarrow> nat \<Rightarrow> nat list \<Rightarrow> 'a mem option" where
  "multiply_gather m C sent psize n [] = Some m"
| "multiply_gather m C sent psize n (p # ps) =
     (let p_start = p * rows_per_proc n psize;
          p_end = (if p + 1 = psize then n else p_start + rows_per_proc n psize);
          count = (p_end - p_start) * n
      in case mpi_recv m (C + p_start * n) count (sent p) of
           None \<Rightarrow> None
         | Some m' \<Rightarrow> multiply_gather m' C sent psize n ps)"

text \<open>
  \<^verbatim>\<open>matrix_multiply_mpi\<close> on all \<open>psize\<close> ranks: rank \<open>r\<close> starts from memory \<open>ms r\<close> and is
  called with the pointers \<open>A r\<close>, \<open>B r\<close>, \<open>C r\<close>. The result is the memory of every rank
  when the call has returned everywhere.
\<close>

definition matrix_multiply_mpi ::
  "(nat \<Rightarrow> 'a::{zero,plus,times} mem) \<Rightarrow> (nat \<Rightarrow> addr) \<Rightarrow> (nat \<Rightarrow> addr) \<Rightarrow> (nat \<Rightarrow> addr) \<Rightarrow> nat \<Rightarrow> nat
     \<Rightarrow> (nat \<Rightarrow> 'a mem) option" where
  "matrix_multiply_mpi ms A B C psize n =
     (let computed = (\<lambda>r. multiply_compute (ms r) (A r) (B r) (C r) r psize n);
          sent = (\<lambda>p. multiply_send (computed p) (C p) p psize n)
      in case multiply_gather (computed 0) (C 0) sent psize n [1..<psize] of
           None \<Rightarrow> None
         | Some m0 \<Rightarrow> Some (\<lambda>r. if r = 0 then m0 else computed r))"

text \<open>The entry of the matrix product as the specification writes it, for matrices given
  by their row-major index.\<close>

definition matrix_product_entry ::
  "(nat \<Rightarrow> 'a::semiring_0) \<Rightarrow> (nat \<Rightarrow> 'a) \<Rightarrow> nat \<Rightarrow> nat \<Rightarrow> nat \<Rightarrow> 'a" where
  "matrix_product_entry a b n i j = (\<Sum>k<n. a (i * n + k) * b (k * n + j))"

text \<open>The same entry with the sum taken in the order \<open>k = 0, ..., n - 1\<close>, which needs no
  law of the arithmetic.\<close>

definition ordered_product_entry ::
  "(nat \<Rightarrow> 'a::{zero,plus,times}) \<Rightarrow> (nat \<Rightarrow> 'a) \<Rightarrow> nat \<Rightarrow> nat \<Rightarrow> nat \<Rightarrow> 'a" where
  "ordered_product_entry a b n i j =
     foldl (\<lambda>sum k. sum + a (i * n + k) * b (k * n + j)) 0 [0..<n]"

section \<open>Matrix inversion\<close>

text \<open>
  \<^verbatim>\<open>matrix_inverse_mpi\<close> begins with \<^verbatim>\<open>double* work = new double[n * n]\<close>, the copy loop
  \<^verbatim>\<open>work[i] = A[i]\<close> and \<^verbatim>\<open>initialize_identity(A_inv, n)\<close>. The address that \<^verbatim>\<open>new\<close>
  returns is a parameter \<open>work\<close> of the model. \<^verbatim>\<open>delete[] work\<close> on the two ways out of the
  function writes no cell.
\<close>

definition copy_matrix :: "'a mem \<Rightarrow> addr \<Rightarrow> addr \<Rightarrow> nat \<Rightarrow> 'a mem" where
  "copy_matrix m A work n = foldl (\<lambda>m i. m(work + i := m (A + i))) m [0..<n * n]"

definition initialize_identity :: "'a::{zero,one} mem \<Rightarrow> addr \<Rightarrow> nat \<Rightarrow> 'a mem" where
  "initialize_identity m matrix sz =
     foldl (\<lambda>m i. foldl (\<lambda>m j. m(matrix + (i * sz + j) := (if i = j then 1 else 0))) m [0..<sz])
       m [0..<sz]"

text \<open>
  The pivot search. The pair is the state \<^verbatim>\<open>(pivot_row, max_val)\<close> of the loop
  \<^verbatim>\<open>for (int i = col + 1; i < n; i++) if (fabs(work[i * n + col]) > max_val) ...\<close>.
\<close>

definition find_pivot :: "'a::linordered_field mem \<Rightarrow> addr \<Rightarrow> nat \<Rightarrow> nat \<Rightarrow> nat \<times> 'a" where
  "find_pivot m work n col =
     foldl (\<lambda>(pivot_row, max_val) i.
              if \<bar>m (work + (i * n + col))\<bar> > max_val
              then (i, \<bar>m (work + (i * n + col))\<bar>)
              else (pivot_row, max_val))
       (col, \<bar>m (work + (col * n + col))\<bar>) [col + 1..<n]"

text \<open>\<^verbatim>\<open>std::swap\<close> of two cells, and the row swap in both matrices.\<close>

definition swap_cells :: "'a mem \<Rightarrow> addr \<Rightarrow> addr \<Rightarrow> 'a mem" where
  "swap_cells m x y = m(x := m y, y := m x)"

definition swap_rows :: "'a mem \<Rightarrow> addr \<Rightarrow> addr \<Rightarrow> nat \<Rightarrow> nat \<Rightarrow> nat \<Rightarrow> 'a mem" where
  "swap_rows m work A_inv n col pivot_row =
     (if pivot_row \<noteq> col
      then foldl (\<lambda>m j. swap_cells (swap_cells m (work + (col * n + j)) (work + (pivot_row * n + j)))
                          (A_inv + (col * n + j)) (A_inv + (pivot_row * n + j)))
             m [0..<n]
      else m)"

text \<open>Scaling the pivot row: \<^verbatim>\<open>work[col * n + j] /= pivot; A_inv[col * n + j] /= pivot\<close>.
  The caller has checked \<^verbatim>\<open>fabs(pivot) >= 1e-10\<close>, so the divisor is not zero.\<close>

definition scale_pivot_row ::
  "'a::linordered_field mem \<Rightarrow> addr \<Rightarrow> addr \<Rightarrow> nat \<Rightarrow> nat \<Rightarrow> 'a \<Rightarrow> 'a mem" where
  "scale_pivot_row m work A_inv n col pivot =
     foldl (\<lambda>m j. let m1 = m(work + (col * n + j) := m (work + (col * n + j)) / pivot)
                   in m1(A_inv + (col * n + j) := m1 (A_inv + (col * n + j)) / pivot))
       m [0..<n]"

text \<open>Elimination of column \<open>col\<close> in row \<open>i\<close>, and in the rows of the rank.\<close>

definition eliminate_row ::
  "'a::linordered_field mem \<Rightarrow> addr \<Rightarrow> addr \<Rightarrow> nat \<Rightarrow> nat \<Rightarrow> nat \<Rightarrow> 'a mem" where
  "eliminate_row m work A_inv n col i =
     (let factor = m (work + (i * n + col))
      in foldl (\<lambda>m j. let m1 = m(work + (i * n + j) :=
                                   m (work + (i * n + j)) - factor * m (work + (col * n + j)))
                       in m1(A_inv + (i * n + j) :=
                               m1 (A_inv + (i * n + j)) - factor * m1 (A_inv + (col * n + j))))
           m [0..<n])"

definition eliminate_column ::
  "'a::linordered_field mem \<Rightarrow> addr \<Rightarrow> addr \<Rightarrow> nat \<Rightarrow> nat \<Rightarrow> nat \<Rightarrow> nat \<Rightarrow> 'a mem" where
  "eliminate_column m work A_inv rank psize n col =
     foldl (\<lambda>m i. if i \<noteq> col then eliminate_row m work A_inv n col i else m)
       m [start_row rank psize n ..< end_row rank psize n]"

text \<open>
  What one rank does for one pivot column before the all-gather. \<open>Singular\<close> is the
  early return after \<^verbatim>\<open>cout << "Matrix is singular!"\<close>; both results carry the memory
  of the rank at that point.
\<close>

datatype 'a column_result = Singular "'a mem" | Eliminated "'a mem"

fun column_memory :: "'a column_result \<Rightarrow> 'a mem" where
  "column_memory (Singular m) = m"
| "column_memory (Eliminated m) = m"

fun returned :: "'a column_result \<Rightarrow> bool" where
  "returned (Singular m) = True"
| "returned (Eliminated m) = False"

definition inverse_column ::
  "'a::linordered_field mem \<Rightarrow> addr \<Rightarrow> addr \<Rightarrow> nat \<Rightarrow> nat \<Rightarrow> nat \<Rightarrow> nat \<Rightarrow> 'a column_result" where
  "inverse_column m work A_inv rank psize n col =
     (let pivot_row = fst (find_pivot m work n col);
          m1 = swap_rows m work A_inv n col pivot_row;
          pivot = m1 (work + (col * n + col))
      in if \<bar>pivot\<bar> < 1 / 10 ^ 10 then Singular m1
         else Eliminated
                (eliminate_column (scale_pivot_row m1 work A_inv n col pivot)
                   work A_inv rank psize n col))"

text \<open>
  \<^verbatim>\<open>MPI_Allgather(MPI_IN_PLACE, 0, MPI_DATATYPE_NULL, recvbuf, recvcount, MPI_DOUBLE, ...)\<close>
  on all ranks: block \<open>q\<close> of every rank's buffer (the \<open>recvcount\<close> cells from offset
  \<open>q * recvcount\<close>) receives block \<open>q\<close> of the buffer of rank \<open>q\<close>. Cells of the buffer
  from offset \<open>psize * recvcount\<close> on are not part of any block.
\<close>

definition mpi_allgather_in_place ::
  "(nat \<Rightarrow> 'a mem) \<Rightarrow> (nat \<Rightarrow> addr) \<Rightarrow> nat \<Rightarrow> nat \<Rightarrow> (nat \<Rightarrow> 'a mem)" where
  "mpi_allgather_in_place ms recvbuf recvcount psize =
     (\<lambda>r. foldl (\<lambda>m q. write_block m (recvbuf r + q * recvcount)
                          (read_block (ms q) (recvbuf q + q * recvcount) recvcount))
             (ms r) [0..<psize])"

text \<open>
  One iteration of the column loop on all ranks. When every rank passes the pivot test,
  the two all-gathers (with \<^verbatim>\<open>n * rows_per_proc\<close> as count) complete. When every rank
  returns, the function has returned everywhere. When only some ranks return, the others
  wait in \<^verbatim>\<open>MPI_Allgather\<close> for a call that never comes; \<open>stopped\<close> lists the ranks that
  returned.
\<close>

datatype 'a iteration_result =
    Synchronized "nat \<Rightarrow> 'a mem"
  | AllSingular "nat \<Rightarrow> 'a mem"
  | CollectiveMismatch "nat list" "nat \<Rightarrow> 'a mem"

definition inverse_iteration ::
  "(nat \<Rightarrow> 'a::linordered_field mem) \<Rightarrow> (nat \<Rightarrow> addr) \<Rightarrow> (nat \<Rightarrow> addr) \<Rightarrow> nat \<Rightarrow> nat \<Rightarrow> nat
     \<Rightarrow> 'a iteration_result" where
  "inverse_iteration ms work A_inv psize n col =
     (let res = (\<lambda>r. inverse_column (ms r) (work r) (A_inv r) r psize n col);
          local = (\<lambda>r. column_memory (res r));
          stopped = filter (\<lambda>r. returned (res r)) [0..<psize]
      in if stopped = [] then
           Synchronized
             (mpi_allgather_in_place
                (mpi_allgather_in_place local work (n * rows_per_proc n psize) psize)
                A_inv (n * rows_per_proc n psize) psize)
         else if length stopped = psize then AllSingular local
         else CollectiveMismatch stopped local)"

text \<open>The loop \<^verbatim>\<open>for (int col = 0; col < n; col++)\<close> and the whole function. The
  result says how the call ended and holds the memory of every rank at that point.\<close>

datatype 'a inverse_result =
    Inverted "nat \<Rightarrow> 'a mem"
  | MatrixSingular nat "nat \<Rightarrow> 'a mem"
  | Stuck nat "nat list" "nat \<Rightarrow> 'a mem"

fun inverse_columns ::
  "(nat \<Rightarrow> 'a::linordered_field mem) \<Rightarrow> (nat \<Rightarrow> addr) \<Rightarrow> (nat \<Rightarrow> addr) \<Rightarrow> nat \<Rightarrow> nat \<Rightarrow> nat list
     \<Rightarrow> 'a inverse_result" where
  "inverse_columns ms work A_inv psize n [] = Inverted ms"
| "inverse_columns ms work A_inv psize n (col # cols) =
     (case inverse_iteration ms work A_inv psize n col of
        Synchronized ms' \<Rightarrow> inverse_columns ms' work A_inv psize n cols
      | AllSingular ms' \<Rightarrow> MatrixSingular col ms'
      | CollectiveMismatch stopped ms' \<Rightarrow> Stuck col stopped ms')"

definition matrix_inverse_mpi ::
  "(nat \<Rightarrow> 'a::linordered_field mem) \<Rightarrow> (nat \<Rightarrow> addr) \<Rightarrow> (nat \<Rightarrow> addr) \<Rightarrow> (nat \<Rightarrow> addr) \<Rightarrow> nat \<Rightarrow> nat
     \<Rightarrow> 'a inverse_result" where
  "matrix_inverse_mpi ms A A_inv work psize n =
     inverse_columns
       (\<lambda>r. initialize_identity (copy_matrix (ms r) (A r) (work r) n) (A_inv r) n)
       work A_inv psize n [0..<n]"

fun result_memory :: "'a inverse_result \<Rightarrow> nat \<Rightarrow> 'a mem" where
  "result_memory (Inverted ms) = ms"
| "result_memory (MatrixSingular col ms) = ms"
| "result_memory (Stuck col stopped ms) = ms"

fun iteration_memory :: "'a iteration_result \<Rightarrow> nat \<Rightarrow> 'a mem" where
  "iteration_memory (Synchronized ms) = ms"
| "iteration_memory (AllSingular ms) = ms"
| "iteration_memory (CollectiveMismatch stopped ms) = ms"

text \<open>How an iteration or a call ended.\<close>

fun synchronized :: "'a iteration_result \<Rightarrow> bool" where
  "synchronized (Synchronized ms) = True"
| "synchronized (AllSingular ms) = False"
| "synchronized (CollectiveMismatch stopped ms) = False"

fun singular_column :: "'a inverse_result \<Rightarrow> nat option" where
  "singular_column (MatrixSingular col ms) = Some col"
| "singular_column (Inverted ms) = None"
| "singular_column (Stuck col stopped ms) = None"

section \<open>Saving a matrix\<close>

text \<open>The decimal text that \<^verbatim>\<open>ss << rank\<close> produces for a non-negative \<^verbatim>\<open>int\<close>.\<close>

definition digit_char :: "nat \<Rightarrow> char" where
  "digit_char d =
     (if d = 0 then CHR ''0'' else if d = 1 then CHR ''1'' else if d = 2 then CHR ''2''
      else if d = 3 then CHR ''3'' else if d = 4 then CHR ''4'' else if d = 5 then CHR ''5''
      else if d = 6 then CHR ''6'' else if d = 7 then CHR ''7'' else if d = 8 then CHR ''8''
      else CHR ''9'')"

fun string_of_nat :: "nat \<Rightarrow> string" where
  "string_of_nat n =
     (if n < 10 then [digit_char n] else string_of_nat (n div 10) @ [digit_char (n mod 10)])"

declare string_of_nat.simps [simp del]

definition partition_file_name :: "string \<Rightarrow> nat \<Rightarrow> string" where
  "partition_file_name filename rank = filename @ ''_part'' @ string_of_nat rank @ ''.dat''"

text \<open>
  \<^verbatim>\<open>save_matrix_distributed\<close> on one rank. The file system maps a file name to the
  \<^verbatim>\<open>double\<close>s the file holds (each is \<^verbatim>\<open>sizeof(double)\<close> bytes of the file, in memory
  order); \<open>opened\<close> says whether \<^verbatim>\<open>ofstream file(name, ios::binary)\<close> could open the
  file, which truncates it. Each \<^verbatim>\<open>file.write(&matrix[i * n], n * sizeof(double))\<close>
  appends the \<open>n\<close> cells of row \<open>i\<close>.
\<close>

definition save_matrix_distributed ::
  "'a mem \<Rightarrow> addr \<Rightarrow> nat \<Rightarrow> string \<Rightarrow> nat \<Rightarrow> nat \<Rightarrow> bool \<Rightarrow> (string \<rightharpoonup> 'a list)
     \<Rightarrow> (string \<rightharpoonup> 'a list)" where
  "save_matrix_distributed m matrix n filename rank psize opened fs =
     (if opened
      then fs(partition_file_name filename rank \<mapsto>
             foldl (\<lambda>file i. file @ read_block m (matrix + i * n) n) []
               [start_row rank psize n ..< end_row rank psize n])
      else fs)"

section \<open>Timing and the bottleneck report\<close>

text \<open>
  The measurements of \<^verbatim>\<open>main\<close> around the multiplication, from the four readings of
  \<^verbatim>\<open>MPI_Wtime\<close>: in the constructor of \<^verbatim>\<open>ResourceMonitor\<close>, for \<^verbatim>\<open>mult_start\<close>, in
  \<^verbatim>\<open>mult_monitor.stop()\<close> and in the expression of \<^verbatim>\<open>mult_comm\<close>. Times are reals.
\<close>

definition mult_times :: "real \<Rightarrow> real \<Rightarrow> real \<Rightarrow> real \<Rightarrow> real \<times> real" where
  "mult_times t_monitor t_start t_stop t_now =
     (let mult_time = t_stop - t_monitor;
          mult_comm = t_now - t_start - mult_time
      in (mult_time, mult_comm))"

text \<open>\<^verbatim>\<open>MPI_Reduce(..., MPI_SUM, 0, ...)\<close> of one value per rank.\<close>

definition mpi_reduce_sum :: "(nat \<Rightarrow> real) \<Rightarrow> nat \<Rightarrow> real" where
  "mpi_reduce_sum v psize = sum_list (map v [0..<psize])"

text \<open>
  \<^verbatim>\<open>(avg_comm / (avg_comp + avg_comm)) * 100\<close>. A zero divisor gives an infinity or a
  NaN in \<^verbatim>\<open>double\<close> arithmetic, which is not a number: \<open>None\<close>.
\<close>

definition comm_ratio :: "real \<Rightarrow> real \<Rightarrow> real option" where
  "comm_ratio avg_comp avg_comm =
     (if avg_comp + avg_comm = 0 then None else Some (avg_comm / (avg_comp + avg_comm) * 100))"

text \<open>What \<^verbatim>\<open><<\<close> writes: a string literal, an \<^verbatim>\<open>int\<close> or a \<^verbatim>\<open>double\<close>; a line ends
  with \<^verbatim>\<open>endl\<close>. The values are kept as values, not as their decimal text.\<close>

datatype item = Str string | IntVal nat | DoubleVal "real option"

type_synonym line = "item list"

definition analyze_communication ::
  "nat \<Rightarrow> nat \<Rightarrow> (nat \<Rightarrow> real) \<Rightarrow> (nat \<Rightarrow> real) \<Rightarrow> bool \<Rightarrow> line list \<Rightarrow> line list" where
  "analyze_communication rank psize comp_time comm_time opened logfile =
     (let total_comp_time = mpi_reduce_sum comp_time psize;
          total_comm_time = mpi_reduce_sum comm_time psize
      in if rank = 0 then
           (let avg_comp = total_comp_time / real psize;
                avg_comm = total_comm_time / real psize;
                ratio = comm_ratio avg_comp avg_comm
            in if opened then
                 logfile @
                 [[Str ''Processors: '', IntVal psize],
                  [Str ''Avg Computation Time: '', DoubleVal (Some avg_comp), Str '' seconds''],
                  [Str ''Avg Communication Time: '', DoubleVal (Some avg_comm), Str '' seconds''],
                  [Str ''Communication Overhead: '', DoubleVal ratio, Str ''%''],
                  [Str ''---'']]
               else logfile)
         else logfile)"

text \<open>The numbers in a sequence of lines.\<close>

fun is_number :: "item \<Rightarrow> bool" where
  "is_number (Str s) = False"
| "is_number (IntVal k) = True"
| "is_number (DoubleVal x) = True"

definition numbers_of :: "line list \<Rightarrow> item list" where
  "numbers_of ls = filter is_number (concat ls)"

chapter \<open>Properties\<close>

section \<open>The partition rule\<close>

lemma rows_times_le:
  assumes "rank < psize"
  shows "rank * (n div psize) + n div psize \<le> (n::nat)"
proof -
  from assms have "Suc rank \<le> psize" by simp
  then have "Suc rank * (n div psize) \<le> psize * (n div psize)"
    by (rule mult_le_mono1)
  also have "\<dots> \<le> n" by simp
  finally show ?thesis by (simp add: add.commute)
qed

lemma start_le_end: "rank < psize \<Longrightarrow> start_row rank psize n \<le> end_row rank psize n"
  using rows_times_le [of rank psize n]
  by (simp add: start_row_def end_row_def rows_per_proc_def)

lemma end_le_n: "rank < psize \<Longrightarrow> end_row rank psize n \<le> n"
  using rows_times_le [of rank psize n]
  by (simp add: start_row_def end_row_def rows_per_proc_def)

lemma end_le_start_next:
  assumes "r1 < r2" "r2 < psize"
  shows "end_row r1 psize n \<le> start_row r2 psize n"
proof -
  from assms have ne: "r1 + 1 \<noteq> psize" by simp
  from assms have "Suc r1 \<le> r2" by simp
  then have "Suc r1 * (n div psize) \<le> r2 * (n div psize)"
    by (rule mult_le_mono1)
  with ne show ?thesis
    by (simp add: start_row_def end_row_def rows_per_proc_def add.commute)
qed

lemma partition_disjoint:
  assumes "r1 < psize" "r2 < psize" "r1 \<noteq> r2"
  shows "row_partition r1 psize n \<inter> row_partition r2 psize n = {}"
proof (cases "r1 < r2")
  case True
  from end_le_start_next [OF True assms(2), of n] show ?thesis
    by (auto simp: row_partition_def)
next
  case False
  with assms(3) have "r2 < r1" by simp
  from end_le_start_next [OF this assms(1), of n] show ?thesis
    by (auto simp: row_partition_def)
qed

lemma row_owner_exists:
  assumes "0 < psize" "i < n"
  shows "\<exists>r<psize. i \<in> row_partition r psize n"
proof (cases "i < (psize - 1) * (n div psize)")
  case True
  then have pos: "0 < n div psize" by (cases "n div psize") auto
  let ?r = "i div (n div psize)"
  from True pos have "?r < psize - 1"
    by (simp add: less_mult_imp_div_less)
  moreover have "?r * (n div psize) \<le> i" by simp
  moreover from pos have "i < ?r * (n div psize) + n div psize"
    using dividend_less_div_times [of "n div psize" i] by (simp add: mult.commute)
  ultimately have "?r < psize \<and> i \<in> row_partition ?r psize n"
    by (auto simp: row_partition_def start_row_def end_row_def rows_per_proc_def)
  then show ?thesis by blast
next
  case False
  with assms have "psize - 1 < psize \<and> i \<in> row_partition (psize - 1) psize n"
    by (auto simp: row_partition_def start_row_def end_row_def rows_per_proc_def)
  then show ?thesis by blast
qed

lemma partition_cover:
  assumes "0 < psize"
  shows "(\<Union>r<psize. row_partition r psize n) = {0..<n}"
proof (rule set_eqI)
  fix i
  show "i \<in> (\<Union>r<psize. row_partition r psize n) \<longleftrightarrow> i \<in> {0..<n}"
  proof
    assume "i \<in> (\<Union>r<psize. row_partition r psize n)"
    then obtain r where r: "r < psize" "i \<in> row_partition r psize n" by blast
    from r(2) have "i < end_row r psize n" by (simp add: row_partition_def)
    with end_le_n [OF r(1), of n] show "i \<in> {0..<n}" by simp
  next
    assume "i \<in> {0..<n}"
    then have "i < n" by simp
    from row_owner_exists [OF assms this] show "i \<in> (\<Union>r<psize. row_partition r psize n)"
      by blast
  qed
qed

lemma partition_rows_inner:
  "rank + 1 \<noteq> psize \<Longrightarrow> partition_rows rank psize n = n div psize"
  by (simp add: partition_rows_def start_row_def end_row_def rows_per_proc_def)

lemma partition_rows_last:
  assumes "rank + 1 = psize"
  shows "partition_rows rank psize n = n div psize + n mod psize"
proof -
  have "n = psize * (n div psize) + n mod psize" by simp
  also from assms have "psize * (n div psize) = rank * (n div psize) + n div psize"
    by (metis Suc_eq_plus1 add.commute mult_Suc)
  finally have "n = rank * (n div psize) + (n div psize + n mod psize)"
    by (simp add: add.assoc)
  then have "n - rank * (n div psize) = n div psize + n mod psize"
    by linarith
  with assms show ?thesis
    by (simp add: partition_rows_def start_row_def end_row_def rows_per_proc_def)
qed

subsection \<open>Cover, disjointness and sizes\<close>

text \<open>
  Claim C4. For every dimension \<open>n\<close> and every process count \<open>psize \<ge> 1\<close> (dividing
  \<open>n\<close> or not, also larger than \<open>n\<close>), the ranges \<open>[start_row, end_row)\<close> of the ranks
  \<open>0 .. psize - 1\<close> are pairwise disjoint, their union is exactly \<open>[0, n)\<close>, every
  rank but the last gets \<open>n div psize\<close> rows and the last rank gets these plus all
  \<open>n mod psize\<close> remainder rows.
\<close>

theorem row_partitions_disjoint_cover:
  assumes "0 < psize"
  shows "(\<Union>r<psize. row_partition r psize n) = {0..<n}
       \<and> (\<forall>r1<psize. \<forall>r2<psize. r1 \<noteq> r2 \<longrightarrow>
            row_partition r1 psize n \<inter> row_partition r2 psize n = {})
       \<and> (\<forall>r<psize. partition_rows r psize n =
            (if r + 1 = psize then n div psize + n mod psize else n div psize))"
proof (intro conjI allI impI)
  show "(\<Union>r<psize. row_partition r psize n) = {0..<n}"
    by (rule partition_cover [OF assms])
next
  fix r1 r2
  assume "r1 < psize" "r2 < psize" "r1 \<noteq> r2"
  then show "row_partition r1 psize n \<inter> row_partition r2 psize n = {}"
    by (rule partition_disjoint)
next
  fix r
  assume "r < psize"
  show "partition_rows r psize n =
          (if r + 1 = psize then n div psize + n mod psize else n div psize)"
    by (simp add: partition_rows_inner partition_rows_last)
qed

theorem row_partitions_disjoint_cover_witness:
  "(0::nat) < 3
   \<and> (\<Union>r<3. row_partition r 3 7) = {0..<7}
   \<and> row_partition 0 3 7 \<inter> row_partition 2 3 7 = {}
   \<and> partition_rows 1 3 7 = 7 div 3
   \<and> partition_rows 2 3 7 = 7 div 3 + 7 mod 3"
proof -
  have h: "(0::nat) < 3" by simp
  note t = row_partitions_disjoint_cover [OF h, of 7]
  from t have c1: "(\<Union>r<3. row_partition r 3 7) = {0..<7}"
    by (rule conjunct1)
  from t have c2: "\<forall>r1<3. \<forall>r2<3. r1 \<noteq> r2 \<longrightarrow>
      row_partition r1 3 7 \<inter> row_partition r2 3 7 = {}"
    by blast
  from t have c3: "\<forall>r<3. partition_rows r 3 7 =
      (if r + 1 = 3 then 7 div 3 + 7 mod 3 else 7 div 3)"
    by blast
  from c2 [rule_format, of 0 2] have d: "row_partition 0 3 7 \<inter> row_partition 2 3 7 = {}"
    by simp
  from c3 [rule_format, of 1] have e1: "partition_rows 1 3 7 = 7 div 3"
    by simp
  from c3 [rule_format, of 2] have e2: "partition_rows 2 3 7 = 7 div 3 + 7 mod 3"
    by simp
  from h c1 d e1 e2 show ?thesis by blast
qed

text \<open>
  Claim C5, as stated: no partition differs in size from another by more than one row.
  With seven rows on four processes the first three ranks get one row each and the last
  rank gets four, so the sizes differ by three.
\<close>

theorem partition_rows_differ_counterexample:
  "\<not> partition_rows 3 4 7 \<le> partition_rows 0 4 7 + 1"
  by (simp add: partition_rows_def start_row_def end_row_def rows_per_proc_def)

text \<open>
  Claim C5, amended: two partitions never differ in size by more than \<open>n mod psize\<close>
  rows, the remainder that the rule hands to the last rank (so by at most one row when
  that remainder is at most one).
\<close>

theorem partition_rows_differ_by_remainder:
  assumes "r1 < psize" "r2 < psize"
  shows "partition_rows r1 psize n \<le> partition_rows r2 psize n + n mod psize"
proof -
  have "partition_rows r1 psize n \<le> n div psize + n mod psize"
    by (cases "r1 + 1 = psize") (simp_all add: partition_rows_inner partition_rows_last)
  moreover have "n div psize \<le> partition_rows r2 psize n"
    by (cases "r2 + 1 = psize") (simp_all add: partition_rows_inner partition_rows_last)
  ultimately show ?thesis
    by linarith
qed

theorem partition_rows_differ_by_remainder_witness:
  "(3::nat) < 4 \<and> (0::nat) < 4
   \<and> partition_rows 3 4 7 \<le> partition_rows 0 4 7 + 7 mod 4"
proof -
  have h1: "(3::nat) < 4" and h2: "(0::nat) < 4" by simp_all
  from h1 h2 partition_rows_differ_by_remainder [OF h1 h2, of 7] show ?thesis
    by blast
qed

section \<open>Memory\<close>

lemma foldl_frame:
  "(\<And>m x. x \<in> set xs \<Longrightarrow> f m x a = m a) \<Longrightarrow> foldl f m xs a = m a"
  by (induction xs arbitrary: m) simp_all

lemma write_prefix_apply:
  "foldl (\<lambda>m k. m(p + k := xs ! k)) m [0..<c] a =
     (if p \<le> a \<and> a < p + c then xs ! (a - p) else m a)"
proof (induction c)
  case 0
  show ?case by auto
next
  case (Suc c)
  show ?case
  proof (cases "a = p + c")
    case True
    then show ?thesis by simp
  next
    case False
    with Suc show ?thesis by (auto simp: less_Suc_eq)
  qed
qed

lemma write_block_apply:
  "write_block m p xs a = (if p \<le> a \<and> a < p + length xs then xs ! (a - p) else m a)"
  unfolding write_block_def by (rule write_prefix_apply)

lemma write_block_frame: "\<not> in_region p (length xs) a \<Longrightarrow> write_block m p xs a = m a"
  by (auto simp: write_block_apply in_region_def)

lemma length_read_block: "length (read_block m p count) = count"
  by (simp add: read_block_def)

lemma nth_read_block: "k < count \<Longrightarrow> read_block m p count ! k = m (p + k)"
  by (simp add: read_block_def)

section \<open>Matrix multiplication\<close>

subsection \<open>Cell indices\<close>

lemma cell_ge_iff: "j < n \<Longrightarrow> s * n \<le> i * n + j \<longleftrightarrow> s \<le> (i::nat)"
proof -
  assume j: "j < n"
  then have n: "0 < n" by simp
  from j have "(i * n + j) div n = i" by simp
  with n show ?thesis
    by (metis less_eq_div_iff_mult_less_eq)
qed

lemma cell_less_iff: "j < n \<Longrightarrow> i * n + j < e * n \<longleftrightarrow> (i::nat) < e"
proof -
  assume j: "j < n"
  then have n: "0 < n" by simp
  from j have "(i * n + j) div n = i" by simp
  with n show ?thesis
    by (metis div_less_iff_less_mult)
qed

lemma cell_inj: "j < n \<Longrightarrow> j' < n \<Longrightarrow> i * n + j = i' * n + j' \<Longrightarrow> i = i' \<and> j = (j'::nat)"
proof -
  assume a: "j < n" "j' < n" "i * n + j = i' * n + j'"
  from a(1) have "(i * n + j) div n = i" "(i * n + j) mod n = j" by simp_all
  moreover from a(2) have "(i' * n + j') div n = i'" "(i' * n + j') mod n = j'" by simp_all
  ultimately show ?thesis using a(3) by metis
qed

lemma cell_bound: "i < n \<Longrightarrow> j < n \<Longrightarrow> i * n + j < n * (n::nat)"
proof -
  assume a: "i < n" "j < n"
  from a(2) have "i * n + j < n * n \<longleftrightarrow> i < n" using cell_less_iff [of j n i n] by (simp add: mult.commute)
  with a(1) show ?thesis by simp
qed


lemma disjoint_cells:
  "regions_disjoint C A len \<Longrightarrow> x < len \<Longrightarrow> y < len \<Longrightarrow> A + x \<noteq> C + y"
  by (auto simp: regions_disjoint_def)

lemma foldl_sum_cong:
  "(\<And>k. k \<in> set ks \<Longrightarrow> f k = g k) \<Longrightarrow>
     foldl (\<lambda>sum k. sum + f k) s ks = foldl (\<lambda>sum k. sum + g k) s ks"
  by (induction ks arbitrary: s) simp_all

lemma inner_sum_cong:
  assumes "\<And>k. k < n \<Longrightarrow> m' (A + (i * n + k)) = m (A + (i * n + k))"
    and "\<And>k. k < n \<Longrightarrow> m' (B + (k * n + j)) = m (B + (k * n + j))"
  shows "inner_sum m' A B n i j = inner_sum m A B n i j"
  unfolding inner_sum_def
  by (rule foldl_sum_cong) (simp add: assms)

lemma row_prefix_frame:
  "(\<And>j. j < c \<Longrightarrow> a \<noteq> C + (i * n + j)) \<Longrightarrow>
   foldl (\<lambda>m j. m(C + (i * n + j) := inner_sum m A B n i j)) m [0..<c] a = m a"
  by (induction c) simp_all

lemma row_prefix_value:
  assumes dA: "regions_disjoint C A (n * n)" and dB: "regions_disjoint C B (n * n)"
    and i: "i < n"
  shows "c \<le> n \<Longrightarrow> j < c \<Longrightarrow>
   foldl (\<lambda>m j. m(C + (i * n + j) := inner_sum m A B n i j)) m [0..<c] (C + (i * n + j))
     = inner_sum m A B n i j"
proof (induction c)
  case 0
  then show ?case by simp
next
  case (Suc c)
  let ?mc = "foldl (\<lambda>m j. m(C + (i * n + j) := inner_sum m A B n i j)) m [0..<c]"
  have unfold: "foldl (\<lambda>m j. m(C + (i * n + j) := inner_sum m A B n i j)) m [0..<Suc c]
      = ?mc(C + (i * n + c) := inner_sum ?mc A B n i c)"
    by simp
  show ?case
  proof (cases "j = c")
    case True
    have eq: "inner_sum ?mc A B n i c = inner_sum m A B n i c"
    proof (rule inner_sum_cong)
      fix k assume k: "k < n"
      show "?mc (A + (i * n + k)) = m (A + (i * n + k))"
      proof (rule row_prefix_frame)
        fix j' assume "j' < c"
        with Suc.prems have "j' < n" by simp
        from disjoint_cells [OF dA cell_bound [OF i k] cell_bound [OF i this]]
        show "A + (i * n + k) \<noteq> C + (i * n + j')" .
      qed
    next
      fix k assume k: "k < n"
      from Suc.prems have cn: "c < n" by simp
      show "?mc (B + (k * n + c)) = m (B + (k * n + c))"
      proof (rule row_prefix_frame)
        fix j' assume "j' < c"
        with Suc.prems have "j' < n" by simp
        from disjoint_cells [OF dB cell_bound [OF k cn] cell_bound [OF i this]]
        show "B + (k * n + c) \<noteq> C + (i * n + j')" .
      qed
    qed
    show ?thesis
      unfolding unfold True by (simp only: fun_upd_same eq)
  next
    case False
    with Suc.prems have "j < c" "c \<le> n" by simp_all
    with Suc.IH have "?mc (C + (i * n + j)) = inner_sum m A B n i j" by blast
    moreover from False have "C + (i * n + j) \<noteq> C + (i * n + c)" by simp
    ultimately show ?thesis
      unfolding unfold by (simp del: upt_Suc)
  qed
qed

lemma multiply_row_frame:
  "(\<And>j. j < n \<Longrightarrow> a \<noteq> C + (i * n + j)) \<Longrightarrow> multiply_row m A B C n i a = m a"
  unfolding multiply_row_def by (rule row_prefix_frame)

lemma multiply_row_value:
  "regions_disjoint C A (n * n) \<Longrightarrow> regions_disjoint C B (n * n) \<Longrightarrow> i < n \<Longrightarrow> j < n \<Longrightarrow>
   multiply_row m A B C n i (C + (i * n + j)) = inner_sum m A B n i j"
  unfolding multiply_row_def by (rule row_prefix_value) simp_all


lemma rows_frame:
  "(\<And>i j. s \<le> i \<Longrightarrow> i < e \<Longrightarrow> j < n \<Longrightarrow> a \<noteq> C + (i * n + j)) \<Longrightarrow>
   foldl (\<lambda>m i. multiply_row m A B C n i) m [s..<e] a = m a"
proof (induction e)
  case 0
  then show ?case by simp
next
  case (Suc e)
  show ?case
  proof (cases "s \<le> e")
    case True
    let ?me = "foldl (\<lambda>m i. multiply_row m A B C n i) m [s..<e]"
    from True have "foldl (\<lambda>m i. multiply_row m A B C n i) m [s..<Suc e] a
        = multiply_row ?me A B C n e a" by simp
    also from True Suc.prems have "\<dots> = ?me a"
      by (intro multiply_row_frame) simp
    also from Suc.prems have "\<dots> = m a"
      by (intro Suc.IH) simp
    finally show ?thesis .
  next
    case False
    then show ?thesis by simp
  qed
qed

lemma rows_value:
  assumes dA: "regions_disjoint C A (n * n)" and dB: "regions_disjoint C B (n * n)"
    and j: "j < n"
  shows "e \<le> n \<Longrightarrow> s \<le> i \<Longrightarrow> i < e \<Longrightarrow>
   foldl (\<lambda>m i. multiply_row m A B C n i) m [s..<e] (C + (i * n + j)) = inner_sum m A B n i j"
proof (induction e)
  case 0
  then show ?case by simp
next
  case (Suc e)
  let ?me = "foldl (\<lambda>m i. multiply_row m A B C n i) m [s..<e]"
  from Suc.prems have se: "s \<le> e" and en: "e < n" by simp_all
  from se have unfold: "foldl (\<lambda>m i. multiply_row m A B C n i) m [s..<Suc e]
      = multiply_row ?me A B C n e" by simp
  show ?case
  proof (cases "i = e")
    case True
    have "multiply_row ?me A B C n e (C + (e * n + j)) = inner_sum ?me A B n e j"
      by (rule multiply_row_value [OF dA dB en j])
    also have "\<dots> = inner_sum m A B n e j"
    proof (rule inner_sum_cong)
      fix k assume k: "k < n"
      show "?me (A + (e * n + k)) = m (A + (e * n + k))"
      proof (rule rows_frame)
        fix i' j' assume "i' < e" "j' < n"
        with en have "i' < n" by simp
        from disjoint_cells [OF dA cell_bound [OF en k] cell_bound [OF this \<open>j' < n\<close>]]
        show "A + (e * n + k) \<noteq> C + (i' * n + j')" .
      qed
    next
      fix k assume k: "k < n"
      show "?me (B + (k * n + j)) = m (B + (k * n + j))"
      proof (rule rows_frame)
        fix i' j' assume "i' < e" "j' < n"
        with en have "i' < n" by simp
        from disjoint_cells [OF dB cell_bound [OF k j] cell_bound [OF this \<open>j' < n\<close>]]
        show "B + (k * n + j) \<noteq> C + (i' * n + j')" .
      qed
    qed
    finally show ?thesis unfolding unfold True .
  next
    case False
    with Suc.prems have ie: "i < e" by simp
    have "multiply_row ?me A B C n e (C + (i * n + j)) = ?me (C + (i * n + j))"
    proof (rule multiply_row_frame)
      fix j' assume "j' < n"
      with j False cell_inj [of j n j' i e] show "C + (i * n + j) \<noteq> C + (e * n + j')"
        by auto
    qed
    also from Suc.IH en Suc.prems(2) ie have "\<dots> = inner_sum m A B n i j" by simp
    finally show ?thesis unfolding unfold .
  qed
qed

lemma multiply_compute_frame:
  assumes "\<And>i j. i \<in> row_partition rank psize n \<Longrightarrow> j < n \<Longrightarrow> a \<noteq> C + (i * n + j)"
  shows "multiply_compute m A B C rank psize n a = m a"
  unfolding multiply_compute_def
  by (rule rows_frame) (simp add: assms row_partition_def)

lemma multiply_compute_value:
  assumes "regions_disjoint C A (n * n)" "regions_disjoint C B (n * n)"
    and "rank < psize" "i \<in> row_partition rank psize n" "j < n"
  shows "multiply_compute m A B C rank psize n (C + (i * n + j)) = inner_sum m A B n i j"
  unfolding multiply_compute_def
  using assms(4) end_le_n [OF assms(3), of n]
  by (intro rows_value assms) (simp_all add: row_partition_def)


lemma multiply_gather_Cons:
  "multiply_gather m C sent psize n (p # ps) =
     (case mpi_recv m (C + start_row p psize n * n) (partition_rows p psize n * n) (sent p) of
        None \<Rightarrow> None
      | Some m' \<Rightarrow> multiply_gather m' C sent psize n ps)"
  by (simp add: Let_def start_row_def end_row_def partition_rows_def)

lemma length_multiply_send:
  "length (multiply_send m C rank psize n) = partition_rows rank psize n * n"
  by (simp add: multiply_send_def read_block_def partition_rows_def)

lemma nth_multiply_send:
  "k < partition_rows rank psize n * n \<Longrightarrow>
   multiply_send m C rank psize n ! k = m (C + start_row rank psize n * n + k)"
  by (simp add: multiply_send_def read_block_def partition_rows_def)

lemma multiply_gather_some:
  "(\<And>p. p \<in> set ps \<Longrightarrow> length (sent p) \<le> partition_rows p psize n * n) \<Longrightarrow>
   \<exists>m'. multiply_gather m C sent psize n ps = Some m'"
proof (induction ps arbitrary: m)
  case Nil
  show ?case by simp
next
  case (Cons p ps)
  from Cons.prems have "length (sent p) \<le> partition_rows p psize n * n" by simp
  then have "mpi_recv m (C + start_row p psize n * n) (partition_rows p psize n * n) (sent p)
      = Some (write_block m (C + start_row p psize n * n) (sent p))"
    by (simp add: mpi_recv_def)
  moreover from Cons.prems have
    "\<exists>m'. multiply_gather (write_block m (C + start_row p psize n * n) (sent p)) C sent psize n ps = Some m'"
    by (intro Cons.IH) simp
  ultimately show ?case by (simp add: multiply_gather_Cons del: multiply_gather.simps)
qed

lemma multiply_gather_frame:
  "(\<And>p. p \<in> set ps \<Longrightarrow>
      \<not> (C + start_row p psize n * n \<le> a \<and> a < C + start_row p psize n * n + length (sent p))) \<Longrightarrow>
   multiply_gather m C sent psize n ps = Some m' \<Longrightarrow> m' a = m a"
proof (induction ps arbitrary: m)
  case Nil
  then show ?case by simp
next
  case (Cons p ps)
  from Cons.prems(2) obtain m1 where
    m1: "mpi_recv m (C + start_row p psize n * n) (partition_rows p psize n * n) (sent p) = Some m1"
    and rest: "multiply_gather m1 C sent psize n ps = Some m'"
    by (auto simp: multiply_gather_Cons simp del: multiply_gather.simps split: option.splits)
  from m1 have "m1 = write_block m (C + start_row p psize n * n) (sent p)"
    by (simp add: mpi_recv_def split: if_splits)
  moreover from Cons.prems(1) [of p]
  have "\<not> (C + start_row p psize n * n \<le> a \<and> a < C + start_row p psize n * n + length (sent p))"
    by simp
  ultimately have "m1 a = m a" by (auto simp: write_block_apply)
  moreover from Cons.prems(1) rest have "m' a = m1 a"
    by (intro Cons.IH) simp_all
  ultimately show ?case by simp
qed

lemma multiply_gather_value:
  "p \<in> set ps \<Longrightarrow>
   C + start_row p psize n * n \<le> a \<Longrightarrow> a < C + start_row p psize n * n + length (sent p) \<Longrightarrow>
   (\<And>q. q \<in> set ps \<Longrightarrow> q \<noteq> p \<Longrightarrow>
      \<not> (C + start_row q psize n * n \<le> a \<and> a < C + start_row q psize n * n + length (sent q))) \<Longrightarrow>
   multiply_gather m C sent psize n ps = Some m' \<Longrightarrow>
   m' a = sent p ! (a - (C + start_row p psize n * n))"
proof (induction ps arbitrary: m)
  case Nil
  then show ?case by simp
next
  case (Cons q ps)
  from Cons.prems(5) obtain m1 where
    m1: "mpi_recv m (C + start_row q psize n * n) (partition_rows q psize n * n) (sent q) = Some m1"
    and rest: "multiply_gather m1 C sent psize n ps = Some m'"
    by (auto simp: multiply_gather_Cons simp del: multiply_gather.simps split: option.splits)
  from m1 have m1_def: "m1 = write_block m (C + start_row q psize n * n) (sent q)"
    by (simp add: mpi_recv_def split: if_splits)
  show ?case
  proof (cases "p \<in> set ps")
    case True
    from True Cons.prems(2,3) Cons.prems(4) rest show ?thesis
      by (intro Cons.IH [of m1]) simp_all
  next
    case False
    with Cons.prems(1) have qp: "q = p" by simp
    from Cons.prems(2,3) have "m1 a = sent p ! (a - (C + start_row p psize n * n))"
      by (simp add: m1_def qp write_block_apply)
    moreover have "m' a = m1 a"
    proof (rule multiply_gather_frame [OF _ rest])
      fix q' assume q': "q' \<in> set ps"
      with False have "q' \<noteq> p" by auto
      with q' Cons.prems(4) [of q']
      show "\<not> (C + start_row q' psize n * n \<le> a \<and> a < C + start_row q' psize n * n + length (sent q'))"
        by simp
    qed
    ultimately show ?thesis by simp
  qed
qed


lemma partition_rows_times:
  assumes "r < psize"
  shows "start_row r psize n * n + partition_rows r psize n * n = end_row r psize n * n"
proof -
  from start_le_end [OF assms, of n]
  have "start_row r psize n + partition_rows r psize n = end_row r psize n"
    by (simp add: partition_rows_def)
  then show ?thesis by (metis add_mult_distrib)
qed

lemma cell_in_block_iff:
  assumes "r < psize" "j < n"
  shows "C + start_row r psize n * n \<le> C + (i * n + j)
           \<and> C + (i * n + j) < C + start_row r psize n * n + partition_rows r psize n * n
         \<longleftrightarrow> i \<in> row_partition r psize n"
proof -
  have "C + start_row r psize n * n + partition_rows r psize n * n = C + end_row r psize n * n"
    using partition_rows_times [OF assms(1), of n] by simp
  then show ?thesis
    using cell_ge_iff [OF assms(2), of "start_row r psize n" i]
      cell_less_iff [OF assms(2), of i "end_row r psize n"]
    by (simp add: row_partition_def)
qed

text \<open>
  After the gather, row \<open>i\<close> of rank 0's \<open>C\<close> holds what the owner of row \<open>i\<close> computed from
  its own \<open>A\<close> and \<open>B\<close>, summed in the order of the source's loop. No law of the arithmetic
  is used.
\<close>

lemma matrix_multiply_mpi_cells:
  fixes ms :: "nat \<Rightarrow> 'a::{zero,plus,times} mem"
  assumes psize: "0 < psize"
    and dis: "\<And>r. r < psize \<Longrightarrow>
      regions_disjoint (C r) (A r) (n * n) \<and> regions_disjoint (C r) (B r) (n * n)"
  shows "\<exists>ms'. matrix_multiply_mpi ms A B C psize n = Some ms' \<and>
     (\<forall>r i j. r < psize \<longrightarrow> i \<in> row_partition r psize n \<longrightarrow> j < n \<longrightarrow>
        ms' 0 (C 0 + (i * n + j)) = inner_sum (ms r) (A r) (B r) n i j)"
proof -
  define computed where "computed = (\<lambda>r. multiply_compute (ms r) (A r) (B r) (C r) r psize n)"
  define sent where "sent = (\<lambda>p. multiply_send (computed p) (C p) p psize n)"
  have len: "length (sent p) = partition_rows p psize n * n" for p
    by (simp add: sent_def length_multiply_send)
  have "\<exists>m0. multiply_gather (computed 0) (C 0) sent psize n [1..<psize] = Some m0"
    by (rule multiply_gather_some) (simp add: len)
  then obtain m0 where m0: "multiply_gather (computed 0) (C 0) sent psize n [1..<psize] = Some m0"
    by blast
  have run: "matrix_multiply_mpi ms A B C psize n = Some (\<lambda>r. if r = 0 then m0 else computed r)"
    using m0 unfolding matrix_multiply_mpi_def Let_def computed_def sent_def by simp
  have cell: "m0 (C 0 + (i * n + j)) = inner_sum (ms r) (A r) (B r) n i j"
    if r: "r < psize" and i: "i \<in> row_partition r psize n" and j: "j < n" for r i j
  proof -
    have other: "\<not> (C 0 + start_row q psize n * n \<le> C 0 + (i * n + j)
          \<and> C 0 + (i * n + j) < C 0 + start_row q psize n * n + length (sent q))"
      if "q \<in> set [1..<psize]" "q \<noteq> r" for q
    proof -
      from that have q: "q < psize" by simp
      from partition_disjoint [OF q r that(2), of n] i have "i \<notin> row_partition q psize n"
        by blast
      with cell_in_block_iff [OF q j, of "C 0" i] show ?thesis
        by (simp add: len)
    qed
    have val: "computed r (C r + (i * n + j)) = inner_sum (ms r) (A r) (B r) n i j"
      unfolding computed_def
      using dis [OF r] by (intro multiply_compute_value r i j) simp_all
    show ?thesis
    proof (cases "r = 0")
      case True
      have "m0 (C 0 + (i * n + j)) = computed 0 (C 0 + (i * n + j))"
      proof (rule multiply_gather_frame [OF _ m0])
        fix p assume "p \<in> set [1..<psize]"
        moreover from this True have "p \<noteq> r" by simp
        ultimately show "\<not> (C 0 + start_row p psize n * n \<le> C 0 + (i * n + j)
          \<and> C 0 + (i * n + j) < C 0 + start_row p psize n * n + length (sent p))"
          by (rule other)
      qed
      with val True show ?thesis by simp
    next
      case False
      with r have mem: "r \<in> set [1..<psize]" by simp
      from cell_in_block_iff [OF r j, of "C 0" i] i
      have inb: "C 0 + start_row r psize n * n \<le> C 0 + (i * n + j)"
        "C 0 + (i * n + j) < C 0 + start_row r psize n * n + length (sent r)"
        by (simp_all add: len)
      have "m0 (C 0 + (i * n + j)) = sent r ! (C 0 + (i * n + j) - (C 0 + start_row r psize n * n))"
        by (rule multiply_gather_value [OF mem inb _ m0]) (rule other)
      also have "C 0 + (i * n + j) - (C 0 + start_row r psize n * n)
          = i * n + j - start_row r psize n * n" by simp
      also have "sent r ! (i * n + j - start_row r psize n * n)
          = computed r (C r + start_row r psize n * n + (i * n + j - start_row r psize n * n))"
      proof -
        from inb have "i * n + j - start_row r psize n * n < partition_rows r psize n * n"
          by (simp add: len)
        then show ?thesis unfolding sent_def by (rule nth_multiply_send)
      qed
      also from inb have "C r + start_row r psize n * n + (i * n + j - start_row r psize n * n)
          = C r + (i * n + j)" by simp
      finally show ?thesis using val by simp
    qed
  qed
  from run cell show ?thesis by simp
qed


lemma foldl_plus_sum:
  fixes f :: "nat \<Rightarrow> 'a::comm_monoid_add"
  shows "foldl (\<lambda>sum k. sum + f k) 0 [0..<n] = (\<Sum>k<n. f k)"
  by (induction n) simp_all

subsection \<open>The gathered product\<close>

lemma inner_sum_ordered_entry:
  assumes "\<And>k. k < n * n \<Longrightarrow> m (A + k) = a k \<and> m (B + k) = b k" "i < n" "j < n"
  shows "inner_sum m A B n i j = ordered_product_entry a b n i j"
  unfolding inner_sum_def ordered_product_entry_def
proof (rule foldl_sum_cong)
  fix k assume "k \<in> set [0..<n]"
  then have k: "k < n" by simp
  from assms(1) [OF cell_bound [OF assms(2) k]] assms(1) [OF cell_bound [OF k assms(3)]]
  show "m (A + (i * n + k)) * m (B + (k * n + j)) = a (i * n + k) * b (k * n + j)"
    by simp
qed

lemma ordered_product_entry_sum:
  fixes a :: "nat \<Rightarrow> 'a::semiring_0"
  shows "ordered_product_entry a b n i j = matrix_product_entry a b n i j"
  by (simp only: ordered_product_entry_def matrix_product_entry_def foldl_plus_sum)

text \<open>
  Claim C1, as stated: for every pair of inputs and every process count rank 0 ends with
  the product of \<open>A\<close> and \<open>B\<close>. Every rank multiplies the matrices in its own memory and
  nothing distributes them (\<^verbatim>\<open>main\<close> fills them from \<^verbatim>\<open>rand()\<close> seeded with
  \<^verbatim>\<open>time(NULL) + rank\<close>). On two ranks with \<open>A = [[1, 2], [3, 4]]\<close> on rank 0,
  \<open>A = [[2, 4], [6, 8]]\<close> on rank 1 and \<open>B = [[5, 6], [7, 8]]\<close> on both, rank 0 ends with
  \<open>C = [[19, 22], [86, 100]]\<close>, which is the product of neither rank's pair
  (\<open>[[19, 22], [43, 50]]\<close> and \<open>[[38, 44], [86, 100]]\<close>).
\<close>

theorem ranks_multiply_their_own_operands_counterexample:
  "map_option (\<lambda>ms'. map (ms' 0) [8, 9, 10, 11])
     (matrix_multiply_mpi
        (\<lambda>r. mem_of_list (if r = 0 then [1, 2, 3, 4, 5, 6, 7, 8] else [2, 4, 6, 8, 5, 6, 7, 8 :: int]))
        (\<lambda>r. 0) (\<lambda>r. 4) (\<lambda>r. 8) 2 2)
     = Some [19, 22, 86, 100]
   \<and> map (\<lambda>(i, j). matrix_product_entry (\<lambda>k. [1, 2, 3, 4 :: int] ! k) (\<lambda>k. [5, 6, 7, 8] ! k) 2 i j)
       [(0, 0), (0, 1), (1, 0), (1, 1)] = [19, 22, 43, 50]
   \<and> map (\<lambda>(i, j). matrix_product_entry (\<lambda>k. [2, 4, 6, 8 :: int] ! k) (\<lambda>k. [5, 6, 7, 8] ! k) 2 i j)
       [(0, 0), (0, 1), (1, 0), (1, 1)] = [38, 44, 86, 100]"
proof -
  let ?ms = "\<lambda>r. mem_of_list (if r = 0 then [1, 2, 3, 4, 5, 6, 7, 8] else [2, 4, 6, 8, 5, 6, 7, 8 :: int])"
  have dis: "regions_disjoint 8 0 (2 * 2) \<and> regions_disjoint 8 4 (2 * 2)"
    by (simp add: regions_disjoint_def)
  from matrix_multiply_mpi_cells
    [where ms = ?ms and A = "\<lambda>r. 0" and B = "\<lambda>r. 4" and C = "\<lambda>r. 8" and psize = 2 and n = 2]
  obtain ms' where run: "matrix_multiply_mpi ?ms (\<lambda>r. 0) (\<lambda>r. 4) (\<lambda>r. 8) 2 2 = Some ms'"
    and cells: "\<And>r i j. r < 2 \<Longrightarrow> i \<in> row_partition r 2 2 \<Longrightarrow> j < 2 \<Longrightarrow>
        ms' 0 (8 + (i * 2 + j)) = inner_sum (?ms r) 0 4 2 i j"
    using dis by auto
  have own: "0 \<in> row_partition 0 2 2" "1 \<in> row_partition 1 2 2"
    by (simp_all add: row_partition_def start_row_def end_row_def rows_per_proc_def)
  from cells [of 0 0 0] cells [of 0 0 1] cells [of 1 1 0] cells [of 1 1 1] own
  have "map (ms' 0) [8, 9, 10, 11] = [19, 22, 86, 100]"
    by (simp add: inner_sum_def mem_of_list_def upt_rec)
  with run show ?thesis
    by (simp add: matrix_product_entry_def numeral_2_eq_2)
qed

text \<open>
  Claim C1, amended: for every process count, when the output buffer of each rank
  overlaps neither of its inputs, the call returns everywhere and rank 0 holds a
  complete \<open>C\<close>: every entry \<open>(i, j)\<close> is the sum over \<open>k = 0, ..., n - 1\<close>, in this order, of
  \<open>A[i][k] * B[k][j]\<close> for the matrices \<open>A\<close> and \<open>B\<close> of the rank that owns row \<open>i\<close>. So it is
  the product of \<open>a\<close> and \<open>b\<close>, whatever the process count, when every rank is called with
  the same \<open>a\<close> and \<open>b\<close>. No law of the arithmetic is used.
\<close>

theorem matrix_multiply_mpi_rows_from_owner:
  fixes ms :: "nat \<Rightarrow> 'a::{zero,plus,times} mem"
  assumes "0 < psize"
    and "\<forall>r<psize. regions_disjoint (C r) (A r) (n * n) \<and> regions_disjoint (C r) (B r) (n * n)"
  shows "\<exists>ms'. matrix_multiply_mpi ms A B C psize n = Some ms'
     \<and> (\<forall>i<n. \<forall>j<n. \<exists>q<psize. i \<in> row_partition q psize n
           \<and> ms' 0 (C 0 + (i * n + j))
               = ordered_product_entry (\<lambda>k. ms q (A q + k)) (\<lambda>k. ms q (B q + k)) n i j)
     \<and> ((\<forall>r<psize. \<forall>k<n * n. ms r (A r + k) = a k \<and> ms r (B r + k) = b k) \<longrightarrow>
          (\<forall>i<n. \<forall>j<n. ms' 0 (C 0 + (i * n + j)) = ordered_product_entry a b n i j))"
proof -
  have dis: "regions_disjoint (C r) (A r) (n * n) \<and> regions_disjoint (C r) (B r) (n * n)"
    if "r < psize" for r
    using assms(2) that by blast
  from matrix_multiply_mpi_cells
    [where ms = ms and A = A and B = B and C = C and psize = psize and n = n, OF assms(1) dis]
  obtain ms' where run: "matrix_multiply_mpi ms A B C psize n = Some ms'"
    and cells: "\<And>r i j. r < psize \<Longrightarrow> i \<in> row_partition r psize n \<Longrightarrow> j < n \<Longrightarrow>
        ms' 0 (C 0 + (i * n + j)) = inner_sum (ms r) (A r) (B r) n i j"
    by blast
  have owner: "\<exists>q<psize. i \<in> row_partition q psize n
      \<and> ms' 0 (C 0 + (i * n + j))
          = ordered_product_entry (\<lambda>k. ms q (A q + k)) (\<lambda>k. ms q (B q + k)) n i j"
    if "i < n" "j < n" for i j
  proof -
    from row_owner_exists [OF assms(1) that(1)]
    obtain q where q: "q < psize" "i \<in> row_partition q psize n" by blast
    have "inner_sum (ms q) (A q) (B q) n i j
        = ordered_product_entry (\<lambda>k. ms q (A q + k)) (\<lambda>k. ms q (B q + k)) n i j"
      by (rule inner_sum_ordered_entry [OF _ that]) simp
    with cells [OF q that(2)] q show ?thesis by auto
  qed
  have same: "ms' 0 (C 0 + (i * n + j)) = ordered_product_entry a b n i j"
    if eq: "\<forall>r<psize. \<forall>k<n * n. ms r (A r + k) = a k \<and> ms r (B r + k) = b k"
      and "i < n" "j < n" for i j
  proof -
    from row_owner_exists [OF assms(1) that(2)]
    obtain q where q: "q < psize" "i \<in> row_partition q psize n" by blast
    from eq q(1) have "\<And>k. k < n * n \<Longrightarrow> ms q (A q + k) = a k \<and> ms q (B q + k) = b k"
      by blast
    from inner_sum_ordered_entry [OF this that(2,3)] cells [OF q that(3)] show ?thesis
      by simp
  qed
  from run owner same show ?thesis by blast
qed

text \<open>The run of the counterexample: entry \<open>(1, 0)\<close> of rank 0's \<open>C\<close> comes from rank 1.\<close>

theorem matrix_multiply_mpi_rows_from_owner_witness:
  "(0::nat) < 2
   \<and> regions_disjoint 8 0 (2 * 2) \<and> regions_disjoint 8 4 (2 * 2)
   \<and> (\<exists>ms'. matrix_multiply_mpi
          (\<lambda>r. mem_of_list (if r = 0 then [1, 2, 3, 4, 5, 6, 7, 8] else [2, 4, 6, 8, 5, 6, 7, 8 :: int]))
          (\<lambda>r. 0) (\<lambda>r. 4) (\<lambda>r. 8) 2 2 = Some ms'
        \<and> ms' 0 (8 + (1 * 2 + 0)) = 86)"
proof -
  let ?ms = "\<lambda>r. mem_of_list (if r = 0 then [1, 2, 3, 4, 5, 6, 7, 8] else [2, 4, 6, 8, 5, 6, 7, 8 :: int])"
  have h1: "(0::nat) < 2" by simp
  have d1: "regions_disjoint 8 0 (2 * 2)" and d2: "regions_disjoint 8 4 (2 * 2)"
    by (simp_all add: regions_disjoint_def)
  from d1 d2 have h2: "\<forall>r<(2::nat). regions_disjoint ((\<lambda>r. 8) r) ((\<lambda>r. 0) r) (2 * 2)
      \<and> regions_disjoint ((\<lambda>r. 8) r) ((\<lambda>r. 4) r) (2 * 2)"
    by simp
  from matrix_multiply_mpi_rows_from_owner [OF h1 h2, where ms = ?ms]
  obtain ms' where run: "matrix_multiply_mpi ?ms (\<lambda>r. 0) (\<lambda>r. 4) (\<lambda>r. 8) 2 2 = Some ms'"
    and rows: "\<forall>i<2. \<forall>j<2. \<exists>q<2. i \<in> row_partition q 2 2
        \<and> ms' 0 (8 + (i * 2 + j))
            = ordered_product_entry (\<lambda>k. ?ms q (0 + k)) (\<lambda>k. ?ms q (4 + k)) 2 i j"
    by blast
  from rows [rule_format, of 1 0]
  obtain q where q: "q < 2" "1 \<in> row_partition q 2 2"
    and v: "ms' 0 (8 + (1 * 2 + 0))
        = ordered_product_entry (\<lambda>k. ?ms q (0 + k)) (\<lambda>k. ?ms q (4 + k)) 2 1 0"
    by auto
  have "1 \<notin> row_partition 0 2 2"
    by (simp add: row_partition_def start_row_def end_row_def rows_per_proc_def)
  with q have "q = 1" by (cases "q = 0") auto
  with v have "ms' 0 (8 + (1 * 2 + 0)) = 86"
    by (simp add: ordered_product_entry_def mem_of_list_def upt_rec)
  with h1 d1 d2 run show ?thesis by blast
qed

text \<open>With the sum of a semiring: the entry of the matrix product.\<close>

lemma matrix_multiply_mpi_same_inputs:
  fixes ms :: "nat \<Rightarrow> 'a::semiring_0 mem"
  assumes "0 < psize"
    and "\<forall>r<psize. \<forall>k<n * n. ms r (A r + k) = a k \<and> ms r (B r + k) = b k"
    and "\<forall>r<psize. regions_disjoint (C r) (A r) (n * n) \<and> regions_disjoint (C r) (B r) (n * n)"
  shows "\<exists>ms'. matrix_multiply_mpi ms A B C psize n = Some ms' \<and>
     (\<forall>i<n. \<forall>j<n. ms' 0 (C 0 + (i * n + j)) = matrix_product_entry a b n i j)"
proof -
  have dis: "regions_disjoint (C r) (A r) (n * n) \<and> regions_disjoint (C r) (B r) (n * n)"
    if "r < psize" for r
    using assms(3) that by blast
  from matrix_multiply_mpi_cells
    [where ms = ms and A = A and B = B and C = C and psize = psize and n = n, OF assms(1) dis]
  obtain ms' where run: "matrix_multiply_mpi ms A B C psize n = Some ms'"
    and cells: "\<And>r i j. r < psize \<Longrightarrow> i \<in> row_partition r psize n \<Longrightarrow> j < n \<Longrightarrow>
        ms' 0 (C 0 + (i * n + j)) = inner_sum (ms r) (A r) (B r) n i j"
    by blast
  have "ms' 0 (C 0 + (i * n + j)) = matrix_product_entry a b n i j" if "i < n" "j < n" for i j
  proof -
    from row_owner_exists [OF assms(1) that(1)]
    obtain r where r: "r < psize" "i \<in> row_partition r psize n" by blast
    from assms(2) r(1) have "\<And>k. k < n * n \<Longrightarrow> ms r (A r + k) = a k \<and> ms r (B r + k) = b k"
      by blast
    from inner_sum_ordered_entry [OF this that] cells [OF r that(2)] show ?thesis
      by (simp add: ordered_product_entry_sum)
  qed
  with run show ?thesis by blast
qed

subsection \<open>Any order of the iterations\<close>

lemma multiply_cells_frame:
  assumes "\<And>i j. (i, j) \<in> set cells \<Longrightarrow> a \<noteq> C + (i * n + j)"
  shows "multiply_cells m A B C n cells a = m a"
  unfolding multiply_cells_def
proof (rule foldl_frame)
  fix m' :: "'a mem" and x assume x: "x \<in> set cells"
  obtain i j where ij: "x = (i, j)" by (cases x)
  with x assms have "a \<noteq> C + (i * n + j)" by blast
  with ij show "(case x of (i, j) \<Rightarrow> m'(C + (i * n + j) := inner_sum m' A B n i j)) a = m' a"
    by simp
qed

lemma multiply_cells_value:
  assumes dA: "regions_disjoint C A (n * n)" and dB: "regions_disjoint C B (n * n)"
  shows "(\<And>i j. (i, j) \<in> set cells \<Longrightarrow> i < n \<and> j < n) \<Longrightarrow> (i, j) \<in> set cells \<Longrightarrow>
    multiply_cells m A B C n cells (C + (i * n + j)) = inner_sum m A B n i j"
proof (induction cells rule: rev_induct)
  case Nil
  then show ?case by simp
next
  case (snoc x cells)
  obtain i' j' where x: "x = (i', j')" by (cases x)
  let ?prev = "multiply_cells m A B C n cells"
  have unfold: "multiply_cells m A B C n (cells @ [x])
      = ?prev(C + (i' * n + j') := inner_sum ?prev A B n i' j')"
    by (simp add: multiply_cells_def x)
  from snoc.prems(1) have bounds: "\<And>i j. (i, j) \<in> set cells \<Longrightarrow> i < n \<and> j < n"
    and last: "i' < n" "j' < n" and ij: "i < n" "j < n"
    using snoc.prems(2) x by auto
  show ?case
  proof (cases "C + (i * n + j) = C + (i' * n + j')")
    case True
    with cell_inj [OF ij(2) last(2), of i i'] have same: "i' = i" "j' = j" by simp_all
    have "inner_sum ?prev A B n i j = inner_sum m A B n i j"
    proof (rule inner_sum_cong)
      fix k assume k: "k < n"
      show "?prev (A + (i * n + k)) = m (A + (i * n + k))"
      proof (rule multiply_cells_frame)
        fix i'' j'' assume "(i'', j'') \<in> set cells"
        with bounds have "i'' < n" "j'' < n" by blast+
        from disjoint_cells [OF dA cell_bound [OF ij(1) k] cell_bound [OF this]]
        show "A + (i * n + k) \<noteq> C + (i'' * n + j'')" .
      qed
    next
      fix k assume k: "k < n"
      show "?prev (B + (k * n + j)) = m (B + (k * n + j))"
      proof (rule multiply_cells_frame)
        fix i'' j'' assume "(i'', j'') \<in> set cells"
        with bounds have "i'' < n" "j'' < n" by blast+
        from disjoint_cells [OF dB cell_bound [OF k ij(2)] cell_bound [OF this]]
        show "B + (k * n + j) \<noteq> C + (i'' * n + j'')" .
      qed
    qed
    then show ?thesis unfolding unfold same by simp
  next
    case False
    with snoc.prems(2) x have "(i, j) \<in> set cells" by auto
    from snoc.IH [OF bounds this] False show ?thesis unfolding unfold by simp
  qed
qed

text \<open>
  The loop nest of \<^verbatim>\<open>matrix_multiply_mpi\<close> is an OpenMP \<^verbatim>\<open>parallel for collapse(2)\<close>. Its
  iterations, run one after the other in any order (and any number of times), leave the
  memory that the sequential order leaves.
\<close>

lemma multiply_compute_any_order:
  assumes dA: "regions_disjoint C A (n * n)" and dB: "regions_disjoint C B (n * n)"
    and rank: "rank < psize"
    and cells: "set cells = row_partition rank psize n \<times> {0..<n}"
  shows "multiply_cells m A B C n cells = multiply_compute m A B C rank psize n"
proof (rule ext)
  fix a
  have bounds: "i < n \<and> j < n" if "(i, j) \<in> set cells" for i j
    using that cells end_le_n [OF rank, of n] by (auto simp: row_partition_def)
  show "multiply_cells m A B C n cells a = multiply_compute m A B C rank psize n a"
  proof (cases "\<exists>i j. (i, j) \<in> set cells \<and> a = C + (i * n + j)")
    case True
    then obtain i j where ij: "(i, j) \<in> set cells" and a: "a = C + (i * n + j)" by blast
    from ij cells have own: "i \<in> row_partition rank psize n" and j: "j < n" by auto
    from multiply_cells_value [OF dA dB bounds ij, where m = m]
      multiply_compute_value [OF dA dB rank own j, where m = m]
    show ?thesis unfolding a by simp
  next
    case False
    then have out: "\<And>i j. (i, j) \<in> set cells \<Longrightarrow> a \<noteq> C + (i * n + j)" by blast
    have "multiply_compute m A B C rank psize n a = m a"
    proof (rule multiply_compute_frame)
      fix i j assume "i \<in> row_partition rank psize n" "j < n"
      with cells have "(i, j) \<in> set cells" by simp
      with out show "a \<noteq> C + (i * n + j)" by blast
    qed
    with multiply_cells_frame [OF out, where m = m and A = A and B = B] show ?thesis by simp
  qed
qed

section \<open>Matrix inversion\<close>

subsection \<open>Pivot selection\<close>

text \<open>The scan keeps the first largest value seen so far.\<close>

lemma pivot_scan:
  fixes v :: "nat \<Rightarrow> 'a::linorder"
  shows "case foldl (\<lambda>(pivot_row, max_val) i. if v i > max_val then (i, v i) else (pivot_row, max_val))
               (col, v col) [col + 1..<e] of
           (p, mx) \<Rightarrow> col \<le> p \<and> (p < e \<or> p = col) \<and> mx = v p
             \<and> (\<forall>i. col \<le> i \<and> (i < e \<or> i = col) \<longrightarrow> v i \<le> mx)
             \<and> (\<forall>i. col \<le> i \<and> i < p \<longrightarrow> v i < mx)"
proof (induction e)
  case 0
  show ?case by auto
next
  case (Suc e)
  let ?step = "\<lambda>(pivot_row, max_val) i. if v i > max_val then (i, v i) else (pivot_row, max_val)"
  obtain p mx where st: "foldl ?step (col, v col) [col + 1..<e] = (p, mx)"
    by (cases "foldl ?step (col, v col) [col + 1..<e]") blast
  from Suc st have IH: "col \<le> p" "p < e \<or> p = col" "mx = v p"
    "\<And>i. col \<le> i \<Longrightarrow> i < e \<or> i = col \<Longrightarrow> v i \<le> mx"
    "\<And>i. col \<le> i \<Longrightarrow> i < p \<Longrightarrow> v i < mx"
    by auto
  show ?case
  proof (cases "col + 1 \<le> e")
    case False
    then have emp: "[col + 1..<Suc e] = []" by simp
    have "v i \<le> v col" if "col \<le> i" "i < Suc e \<or> i = col" for i
    proof -
      from that False have "i = col" by auto
      then show ?thesis by simp
    qed
    then show ?thesis unfolding emp by auto
  next
    case True
    with st have unfold: "foldl ?step (col, v col) [col + 1..<Suc e] = ?step (p, mx) e"
      by simp
    show ?thesis
    proof (cases "v e > mx")
      case gt: True
      have "v i \<le> v e" if "col \<le> i" "i < Suc e \<or> i = col" for i
      proof (cases "i = e")
        case True
        then show ?thesis by simp
      next
        case False
        with that have "i < e \<or> i = col" by auto
        from IH(4) [OF that(1) this] gt show ?thesis by simp
      qed
      moreover have "v i < v e" if "col \<le> i" "i < e" for i
        using IH(4) [OF that(1)] that(2) gt by auto
      moreover from True have "col \<le> e" by simp
      ultimately show ?thesis unfolding unfold using gt by simp
    next
      case le: False
      have "v i \<le> mx" if "col \<le> i" "i < Suc e \<or> i = col" for i
      proof (cases "i = e")
        case True
        with le show ?thesis by simp
      next
        case False
        with that have "i < e \<or> i = col" by auto
        from IH(4) [OF that(1) this] show ?thesis .
      qed
      with IH(1,2,3,5) show ?thesis unfolding unfold using le by auto
    qed
  qed
qed

lemma find_pivot_bounds:
  assumes "col < n"
  shows "col \<le> fst (find_pivot m work n col)" "fst (find_pivot m work n col) < n"
  using pivot_scan [where v = "\<lambda>i. \<bar>m (work + (i * n + col))\<bar>" and col = col and e = n] assms
  by (auto simp: find_pivot_def split: prod.splits)

text \<open>
  Claim C6. For every pivot column \<open>col < n\<close>, the row that \<^verbatim>\<open>matrix_inverse_mpi\<close> selects
  lies in \<open>[col, n)\<close>, the absolute value of its entry in column \<open>col\<close> is the largest
  among the rows \<open>col .. n - 1\<close>, and every earlier row of that range has a strictly
  smaller absolute value: among equal maxima the lowest row index is chosen.
\<close>

theorem find_pivot_first_maximum:
  assumes "col < n"
  shows "col \<le> fst (find_pivot m work n col) \<and> fst (find_pivot m work n col) < n
     \<and> snd (find_pivot m work n col) = \<bar>m (work + (fst (find_pivot m work n col) * n + col))\<bar>
     \<and> (\<forall>i. col \<le> i \<and> i < n \<longrightarrow>
           \<bar>m (work + (i * n + col))\<bar> \<le> \<bar>m (work + (fst (find_pivot m work n col) * n + col))\<bar>)
     \<and> (\<forall>i. col \<le> i \<and> i < fst (find_pivot m work n col) \<longrightarrow>
           \<bar>m (work + (i * n + col))\<bar> < \<bar>m (work + (fst (find_pivot m work n col) * n + col))\<bar>)"
  using pivot_scan [where v = "\<lambda>i. \<bar>m (work + (i * n + col))\<bar>" and col = col and e = n] assms
  by (auto simp: find_pivot_def split: prod.splits)

text \<open>Column 0 of a \<open>3 \<times> 3\<close> matrix holding \<open>1, -3, 3\<close>: rows 1 and 2 tie, row 1 is chosen.\<close>

theorem find_pivot_first_maximum_witness:
  "(0::nat) < 3
   \<and> fst (find_pivot (mem_of_list [1, 0, 0, - 3, 0, 0, 3, 0, 0 :: rat]) 0 3 0) < 3
   \<and> \<bar>mem_of_list [1, 0, 0, - 3, 0, 0, 3, 0, 0 :: rat] (0 + (2 * 3 + 0))\<bar>
       \<le> \<bar>mem_of_list [1, 0, 0, - 3, 0, 0, 3, 0, 0 :: rat]
            (0 + (fst (find_pivot (mem_of_list [1, 0, 0, - 3, 0, 0, 3, 0, 0 :: rat]) 0 3 0) * 3 + 0))\<bar>
   \<and> fst (find_pivot (mem_of_list [1, 0, 0, - 3, 0, 0, 3, 0, 0 :: rat]) 0 3 0) = 1"
proof -
  have h: "(0::nat) < 3" by simp
  note t = find_pivot_first_maximum [OF h, of "mem_of_list [1, 0, 0, - 3, 0, 0, 3, 0, 0 :: rat]" 0]
  from t have b: "fst (find_pivot (mem_of_list [1, 0, 0, - 3, 0, 0, 3, 0, 0 :: rat]) 0 3 0) < 3"
    by blast
  from t have "\<forall>i. 0 \<le> i \<and> i < 3 \<longrightarrow>
      \<bar>mem_of_list [1, 0, 0, - 3, 0, 0, 3, 0, 0 :: rat] (0 + (i * 3 + 0))\<bar>
      \<le> \<bar>mem_of_list [1, 0, 0, - 3, 0, 0, 3, 0, 0 :: rat]
            (0 + (fst (find_pivot (mem_of_list [1, 0, 0, - 3, 0, 0, 3, 0, 0 :: rat]) 0 3 0) * 3 + 0))\<bar>"
    by blast
  from this [rule_format, of 2]
  have c: "\<bar>mem_of_list [1, 0, 0, - 3, 0, 0, 3, 0, 0 :: rat] (0 + (2 * 3 + 0))\<bar>
       \<le> \<bar>mem_of_list [1, 0, 0, - 3, 0, 0, 3, 0, 0 :: rat]
            (0 + (fst (find_pivot (mem_of_list [1, 0, 0, - 3, 0, 0, 3, 0, 0 :: rat]) 0 3 0) * 3 + 0))\<bar>"
    by simp
  have d: "fst (find_pivot (mem_of_list [1, 0, 0, - 3, 0, 0, 3, 0, 0 :: rat]) 0 3 0) = 1"
    by (simp add: find_pivot_def mem_of_list_def upt_rec)
  from h b c d show ?thesis by blast
qed

subsection \<open>What the steps of a column write\<close>

lemma cell_in_region: "i < n \<Longrightarrow> j < n \<Longrightarrow> in_region p (n * n) (p + (i * n + j))"
  using cell_bound [of i n j] by (simp add: in_region_def)

lemma copy_matrix_frame: "\<not> in_region work (n * n) a \<Longrightarrow> copy_matrix m A work n a = m a"
  unfolding copy_matrix_def
  by (rule foldl_frame) (auto simp: in_region_def)

lemma initialize_identity_frame:
  assumes "\<not> in_region matrix (sz * sz) a"
  shows "initialize_identity m matrix sz a = m a"
  unfolding initialize_identity_def
proof (rule foldl_frame)
  fix m' :: "'a mem" and i assume "i \<in> set [0..<sz]"
  then have i: "i < sz" by simp
  show "foldl (\<lambda>m j. m(matrix + (i * sz + j) := (if i = j then 1 else 0))) m' [0..<sz] a = m' a"
  proof (rule foldl_frame)
    fix m'' :: "'a mem" and j assume "j \<in> set [0..<sz]"
    then have "j < sz" by simp
    from cell_in_region [OF i this, of matrix] assms have "a \<noteq> matrix + (i * sz + j)" by auto
    then show "(m''(matrix + (i * sz + j) := (if i = j then 1 else 0))) a = m'' a" by simp
  qed
qed

lemma swap_rows_frame:
  assumes "\<not> in_region work (n * n) a" "\<not> in_region A_inv (n * n) a" "col < n" "pivot_row < n"
  shows "swap_rows m work A_inv n col pivot_row a = m a"
proof (cases "pivot_row = col")
  case True
  then show ?thesis by (simp add: swap_rows_def)
next
  case False
  have "foldl (\<lambda>m j. swap_cells (swap_cells m (work + (col * n + j)) (work + (pivot_row * n + j)))
                          (A_inv + (col * n + j)) (A_inv + (pivot_row * n + j))) m [0..<n] a = m a"
  proof (rule foldl_frame)
    fix m' :: "'a mem" and j assume "j \<in> set [0..<n]"
    then have j: "j < n" by simp
    from cell_in_region [OF assms(3) j, of work] cell_in_region [OF assms(4) j, of work]
      cell_in_region [OF assms(3) j, of A_inv] cell_in_region [OF assms(4) j, of A_inv] assms(1,2)
    have "a \<noteq> work + (col * n + j)" "a \<noteq> work + (pivot_row * n + j)"
      "a \<noteq> A_inv + (col * n + j)" "a \<noteq> A_inv + (pivot_row * n + j)" by auto
    then show "swap_cells (swap_cells m' (work + (col * n + j)) (work + (pivot_row * n + j)))
                 (A_inv + (col * n + j)) (A_inv + (pivot_row * n + j)) a = m' a"
      by (simp add: swap_cells_def)
  qed
  with False show ?thesis by (simp add: swap_rows_def)
qed

lemma scale_pivot_row_frame:
  assumes "\<not> in_region work (n * n) a" "\<not> in_region A_inv (n * n) a" "col < n"
  shows "scale_pivot_row m work A_inv n col pivot a = m a"
  unfolding scale_pivot_row_def
proof (rule foldl_frame)
  fix m' :: "'a mem" and j assume "j \<in> set [0..<n]"
  then have j: "j < n" by simp
  from cell_in_region [OF assms(3) j, of work] cell_in_region [OF assms(3) j, of A_inv] assms(1,2)
  have "a \<noteq> work + (col * n + j)" "a \<noteq> A_inv + (col * n + j)" by auto
  then show "(let m1 = m'(work + (col * n + j) := m' (work + (col * n + j)) / pivot)
              in m1(A_inv + (col * n + j) := m1 (A_inv + (col * n + j)) / pivot)) a = m' a"
    by (simp add: Let_def)
qed

lemma eliminate_row_frame:
  assumes "\<not> in_region work (n * n) a" "\<not> in_region A_inv (n * n) a" "i < n"
  shows "eliminate_row m work A_inv n col i a = m a"
  unfolding eliminate_row_def Let_def
proof (rule foldl_frame)
  fix m' :: "'a mem" and j assume "j \<in> set [0..<n]"
  then have j: "j < n" by simp
  from cell_in_region [OF assms(3) j, of work] cell_in_region [OF assms(3) j, of A_inv] assms(1,2)
  have "a \<noteq> work + (i * n + j)" "a \<noteq> A_inv + (i * n + j)" by auto
  then show "(m'(work + (i * n + j) := m' (work + (i * n + j)) - m (work + (i * n + col)) * m' (work + (col * n + j)),
               A_inv + (i * n + j) :=
                 (m'(work + (i * n + j) := m' (work + (i * n + j)) - m (work + (i * n + col)) * m' (work + (col * n + j))))
                   (A_inv + (i * n + j))
                 - m (work + (i * n + col)) *
                   (m'(work + (i * n + j) := m' (work + (i * n + j)) - m (work + (i * n + col)) * m' (work + (col * n + j))))
                     (A_inv + (col * n + j)))) a = m' a"
    by simp
qed

lemma eliminate_column_frame:
  assumes "\<not> in_region work (n * n) a" "\<not> in_region A_inv (n * n) a" "rank < psize"
  shows "eliminate_column m work A_inv rank psize n col a = m a"
  unfolding eliminate_column_def
proof (rule foldl_frame)
  fix m' :: "'a mem" and i assume "i \<in> set [start_row rank psize n..<end_row rank psize n]"
  with end_le_n [OF assms(3), of n] have i: "i < n" by simp
  show "(if i \<noteq> col then eliminate_row m' work A_inv n col i else m') a = m' a"
    by (simp add: eliminate_row_frame [OF assms(1,2) i])
qed

lemma inverse_column_frame:
  assumes "\<not> in_region work (n * n) a" "\<not> in_region A_inv (n * n) a" "rank < psize" "col < n"
  shows "column_memory (inverse_column m work A_inv rank psize n col) a = m a"
proof -
  from find_pivot_bounds(2) [OF assms(4)] have "fst (find_pivot m work n col) < n" .
  from swap_rows_frame [OF assms(1,2,4) this]
  have sw: "swap_rows m work A_inv n col (fst (find_pivot m work n col)) a = m a" .
  then show ?thesis
    by (simp add: inverse_column_def Let_def eliminate_column_frame [OF assms(1,2,3)]
        scale_pivot_row_frame [OF assms(1,2,4)])
qed

lemma allgather_count_le: "psize * (n * (n div psize)) \<le> n * (n::nat)"
proof -
  have "psize * (n div psize) \<le> n" by simp
  then have "n * (psize * (n div psize)) \<le> n * n" by (rule mult_le_mono2)
  then show ?thesis by (simp add: mult.left_commute)
qed

lemma allgather_block_in_buffer:
  assumes "q < psize" "psize * recvcount \<le> len" "in_region (buf + q * recvcount) recvcount a"
  shows "in_region buf len a"
proof -
  from assms(1) have "Suc q \<le> psize" by simp
  then have "Suc q * recvcount \<le> psize * recvcount" by (rule mult_le_mono1)
  with assms(2) have "q * recvcount + recvcount \<le> len" by simp
  with assms(3) show ?thesis by (simp add: in_region_def)
qed

lemma mpi_allgather_in_place_frame:
  assumes "\<not> in_region (recvbuf r) len a" "psize * recvcount \<le> len"
  shows "mpi_allgather_in_place ms recvbuf recvcount psize r a = ms r a"
  unfolding mpi_allgather_in_place_def
proof (rule foldl_frame)
  fix m :: "'a mem" and q assume "q \<in> set [0..<psize]"
  then have q: "q < psize" by simp
  from allgather_block_in_buffer [OF q assms(2)] assms(1)
  have "\<not> in_region (recvbuf r + q * recvcount) recvcount a" by blast
  then show "write_block m (recvbuf r + q * recvcount)
      (read_block (ms q) (recvbuf q + q * recvcount) recvcount) a = m a"
    by (intro write_block_frame) (simp add: length_read_block)
qed

lemma inverse_iteration_frame:
  assumes "r < psize" "col < n"
    and "\<not> in_region (work r) (n * n) a" "\<not> in_region (A_inv r) (n * n) a"
  shows "iteration_memory (inverse_iteration ms work A_inv psize n col) r a = ms r a"
proof -
  let ?local = "\<lambda>r. column_memory (inverse_column (ms r) (work r) (A_inv r) r psize n col)"
  have loc: "?local r a = ms r a"
    by (rule inverse_column_frame [OF assms(3,4,1,2)])
  have cnt: "psize * (n * rows_per_proc n psize) \<le> n * n"
    unfolding rows_per_proc_def by (rule allgather_count_le)
  have "mpi_allgather_in_place
          (mpi_allgather_in_place ?local work (n * rows_per_proc n psize) psize)
          A_inv (n * rows_per_proc n psize) psize r a
        = mpi_allgather_in_place ?local work (n * rows_per_proc n psize) psize r a"
    by (rule mpi_allgather_in_place_frame [where recvbuf = A_inv and r = r, OF assms(4) cnt])
  also have "\<dots> = ?local r a"
    by (rule mpi_allgather_in_place_frame [where recvbuf = work and r = r, OF assms(3) cnt])
  finally have sync: "mpi_allgather_in_place
          (mpi_allgather_in_place ?local work (n * rows_per_proc n psize) psize)
          A_inv (n * rows_per_proc n psize) psize r a = ms r a"
    using loc by simp
  show ?thesis
    unfolding inverse_iteration_def Let_def
    by (simp add: sync loc)
qed

lemma inverse_columns_frame:
  assumes "r < psize"
    and "\<not> in_region (work r) (n * n) a" "\<not> in_region (A_inv r) (n * n) a"
  shows "(\<And>col. col \<in> set cols \<Longrightarrow> col < n) \<Longrightarrow>
    result_memory (inverse_columns ms work A_inv psize n cols) r a = ms r a"
proof (induction cols arbitrary: ms)
  case Nil
  show ?case by simp
next
  case (Cons col cols)
  from Cons.prems have col: "col < n" by simp
  note it = inverse_iteration_frame [where work = work and A_inv = A_inv and r = r and ms = ms, OF assms(1) col assms(2,3)]
  show ?case
  proof (cases "inverse_iteration ms work A_inv psize n col")
    case (Synchronized ms')
    with it have "ms' r a = ms r a" by simp
    moreover from Cons.prems have "result_memory (inverse_columns ms' work A_inv psize n cols) r a = ms' r a"
      by (intro Cons.IH) simp
    ultimately show ?thesis using Synchronized by simp
  next
    case (AllSingular ms')
    with it show ?thesis by simp
  next
    case (CollectiveMismatch stopped ms')
    with it show ?thesis by simp
  qed
qed

lemma matrix_inverse_mpi_frame:
  assumes "r < psize"
    and "\<not> in_region (work r) (n * n) a" "\<not> in_region (A_inv r) (n * n) a"
  shows "result_memory (matrix_inverse_mpi ms A A_inv work psize n) r a = ms r a"
proof -
  have "result_memory (matrix_inverse_mpi ms A A_inv work psize n) r a
      = initialize_identity (copy_matrix (ms r) (A r) (work r) n) (A_inv r) n a"
    unfolding matrix_inverse_mpi_def
    by (rule inverse_columns_frame [where work = work and A_inv = A_inv and r = r, OF assms]) simp
  also have "\<dots> = copy_matrix (ms r) (A r) (work r) n a"
    by (rule initialize_identity_frame [OF assms(3)])
  also have "\<dots> = ms r a"
    by (rule copy_matrix_frame [OF assms(2)])
  finally show ?thesis .
qed

section \<open>Inputs are not modified\<close>

lemma matrix_multiply_mpi_returns:
  "\<exists>m0. multiply_gather (multiply_compute (ms 0) (A 0) (B 0) (C 0) 0 psize n) (C 0)
            (\<lambda>p. multiply_send (multiply_compute (ms p) (A p) (B p) (C p) p psize n) (C p) p psize n)
            psize n [1..<psize] = Some m0
     \<and> matrix_multiply_mpi ms A B C psize n =
         Some (\<lambda>r. if r = 0 then m0 else multiply_compute (ms r) (A r) (B r) (C r) r psize n)"
proof -
  let ?sent = "\<lambda>p. multiply_send (multiply_compute (ms p) (A p) (B p) (C p) p psize n) (C p) p psize n"
  have "\<exists>m0. multiply_gather (multiply_compute (ms 0) (A 0) (B 0) (C 0) 0 psize n) (C 0)
            ?sent psize n [1..<psize] = Some m0"
    by (rule multiply_gather_some) (simp add: length_multiply_send)
  then obtain m0 where m0: "multiply_gather (multiply_compute (ms 0) (A 0) (B 0) (C 0) 0 psize n) (C 0)
            ?sent psize n [1..<psize] = Some m0" by blast
  then have "matrix_multiply_mpi ms A B C psize n =
         Some (\<lambda>r. if r = 0 then m0 else multiply_compute (ms r) (A r) (B r) (C r) r psize n)"
    unfolding matrix_multiply_mpi_def Let_def by simp
  with m0 show ?thesis by blast
qed

lemma multiply_compute_outside:
  assumes "rank < psize" "\<not> in_region C (n * n) a"
  shows "multiply_compute m A B C rank psize n a = m a"
proof (rule multiply_compute_frame)
  fix i j assume "i \<in> row_partition rank psize n" "j < n"
  with end_le_n [OF assms(1), of n] have "i < n" "j < n" by (simp_all add: row_partition_def)
  from cell_in_region [OF this, of C] assms(2) show "a \<noteq> C + (i * n + j)" by auto
qed

lemma matrix_multiply_mpi_frame:
  assumes run: "matrix_multiply_mpi ms A B C psize n = Some ms'"
    and r: "r < psize" and out: "\<not> in_region (C r) (n * n) a"
  shows "ms' r a = ms r a"
proof -
  let ?computed = "\<lambda>r. multiply_compute (ms r) (A r) (B r) (C r) r psize n"
  let ?sent = "\<lambda>p. multiply_send (?computed p) (C p) p psize n"
  from matrix_multiply_mpi_returns [of ms A B C psize n] run
  obtain m0 where m0: "multiply_gather (?computed 0) (C 0) ?sent psize n [1..<psize] = Some m0"
    and ms': "ms' = (\<lambda>r. if r = 0 then m0 else ?computed r)"
    by auto
  have comp: "?computed r a = ms r a"
    by (rule multiply_compute_outside [OF r out])
  show ?thesis
  proof (cases "r = 0")
    case False
    with ms' comp show ?thesis by simp
  next
    case True
    have "m0 a = ?computed 0 a"
    proof (rule multiply_gather_frame [OF _ m0])
      fix p assume "p \<in> set [1..<psize]"
      then have p: "p < psize" by simp
      have "start_row p psize n * n + length (?sent p) = end_row p psize n * n"
        using partition_rows_times [OF p, of n] by (simp add: length_multiply_send)
      moreover from end_le_n [OF p, of n] have "end_row p psize n * n \<le> n * n"
        by (rule mult_le_mono1)
      ultimately have "start_row p psize n * n + length (?sent p) \<le> n * n" by simp
      with out True show "\<not> (C 0 + start_row p psize n * n \<le> a
          \<and> a < C 0 + start_row p psize n * n + length (?sent p))"
        by (auto simp: in_region_def)
    qed
    with ms' comp True show ?thesis by simp
  qed
qed

lemma disjoint_not_in_region:
  "regions_disjoint p q len \<Longrightarrow> k < len \<Longrightarrow> \<not> in_region p len (q + k)"
  by (auto simp: regions_disjoint_def in_region_def)

text \<open>
  Claim C10. On every rank \<open>r\<close>, \<^verbatim>\<open>matrix_multiply_mpi\<close> returns and changes no cell outside
  the \<open>n * n\<close> cells of its output buffer \<open>C r\<close>; so the inputs \<open>A r\<close> and \<open>B r\<close>, which do
  not overlap \<open>C r\<close>, are unchanged. \<^verbatim>\<open>matrix_inverse_mpi\<close> changes no cell outside its
  fresh buffer \<open>work r\<close> and its output buffer \<open>A_inv r\<close>, however the call ends (inverse
  computed, early return on a singular pivot, or ranks left waiting); so its input \<open>M r\<close>,
  which overlaps neither, is unchanged.
\<close>

theorem operations_leave_inputs_unchanged:
  fixes ms :: "nat \<Rightarrow> 'a::{zero,plus,times} mem" and mi :: "nat \<Rightarrow> 'b::linordered_field mem"
  assumes "r < psize"
    and "regions_disjoint (C r) (A r) (n * n)" "regions_disjoint (C r) (B r) (n * n)"
    and "regions_disjoint (A_inv r) (M r) (k * k)" "regions_disjoint (work r) (M r) (k * k)"
  shows "(\<exists>ms'. matrix_multiply_mpi ms A B C psize n = Some ms'
            \<and> (\<forall>a. \<not> in_region (C r) (n * n) a \<longrightarrow> ms' r a = ms r a)
            \<and> (\<forall>i<n * n. ms' r (A r + i) = ms r (A r + i) \<and> ms' r (B r + i) = ms r (B r + i)))
       \<and> (\<forall>a. \<not> in_region (work r) (k * k) a \<and> \<not> in_region (A_inv r) (k * k) a \<longrightarrow>
              result_memory (matrix_inverse_mpi mi M A_inv work psize k) r a = mi r a)
       \<and> (\<forall>i<k * k. result_memory (matrix_inverse_mpi mi M A_inv work psize k) r (M r + i)
              = mi r (M r + i))"
proof (intro conjI)
  from matrix_multiply_mpi_returns [of ms A B C psize n]
  obtain ms' where run: "matrix_multiply_mpi ms A B C psize n = Some ms'" by blast
  have frame: "ms' r a = ms r a" if "\<not> in_region (C r) (n * n) a" for a
    by (rule matrix_multiply_mpi_frame [OF run assms(1) that])
  have "ms' r (A r + i) = ms r (A r + i) \<and> ms' r (B r + i) = ms r (B r + i)" if "i < n * n" for i
    using frame [OF disjoint_not_in_region [OF assms(2) that]]
      frame [OF disjoint_not_in_region [OF assms(3) that]] by simp
  with run frame
  show "\<exists>ms'. matrix_multiply_mpi ms A B C psize n = Some ms'
            \<and> (\<forall>a. \<not> in_region (C r) (n * n) a \<longrightarrow> ms' r a = ms r a)
            \<and> (\<forall>i<n * n. ms' r (A r + i) = ms r (A r + i) \<and> ms' r (B r + i) = ms r (B r + i))"
    by blast
next
  show inv: "\<forall>a. \<not> in_region (work r) (k * k) a \<and> \<not> in_region (A_inv r) (k * k) a \<longrightarrow>
      result_memory (matrix_inverse_mpi mi M A_inv work psize k) r a = mi r a"
    using matrix_inverse_mpi_frame [where work = work and A_inv = A_inv and r = r, OF assms(1)]
    by blast
  show "\<forall>i<k * k. result_memory (matrix_inverse_mpi mi M A_inv work psize k) r (M r + i)
      = mi r (M r + i)"
    using inv disjoint_not_in_region [OF assms(4)] disjoint_not_in_region [OF assms(5)]
    by blast
qed

theorem operations_leave_inputs_unchanged_witness:
  "(1::nat) < 2
   \<and> regions_disjoint 8 0 (2 * 2) \<and> regions_disjoint 8 4 (2 * 2)
   \<and> regions_disjoint 4 0 (2 * 2) \<and> regions_disjoint 8 0 (2 * 2)
   \<and> (\<exists>ms'. matrix_multiply_mpi (\<lambda>r a. int a) (\<lambda>r. 0) (\<lambda>r. 4) (\<lambda>r. 8) 2 2 = Some ms'
          \<and> ms' 1 (0 + 3) = int (0 + 3) \<and> ms' 1 (4 + 3) = int (4 + 3))
   \<and> result_memory (matrix_inverse_mpi (\<lambda>r. mem_of_list [2, 1, 4, 3 :: rat])
          (\<lambda>r. 0) (\<lambda>r. 4) (\<lambda>r. 8) 2 2) 1 (0 + 3)
        = mem_of_list [2, 1, 4, 3 :: rat] (0 + 3)"
proof -
  have h1: "(1::nat) < 2" by simp
  have h2: "regions_disjoint 8 0 (2 * 2)" and h3: "regions_disjoint 8 4 (2 * 2)"
    and h4: "regions_disjoint 4 0 (2 * 2)"
    by (simp_all add: regions_disjoint_def)
  note t = operations_leave_inputs_unchanged
    [where r = 1 and psize = 2 and C = "\<lambda>r. 8" and A = "\<lambda>r. 0" and B = "\<lambda>r. 4" and n = 2
       and A_inv = "\<lambda>r. 4" and M = "\<lambda>r. 0" and work = "\<lambda>r. 8" and k = 2
       and ms = "\<lambda>r a. int a" and mi = "\<lambda>r. mem_of_list [2, 1, 4, 3 :: rat]",
     OF h1 h2 h3 h4 h2]
  from t obtain ms' where run: "matrix_multiply_mpi (\<lambda>r a. int a) (\<lambda>r. 0) (\<lambda>r. 4) (\<lambda>r. 8) 2 2 = Some ms'"
    and inputs: "\<forall>i<2 * 2. ms' 1 (0 + i) = int (0 + i) \<and> ms' 1 (4 + i) = int (4 + i)"
    by blast
  from inputs [rule_format, of 3] have a: "ms' 1 (0 + 3) = int (0 + 3) \<and> ms' 1 (4 + 3) = int (4 + 3)"
    by simp
  from t have "\<forall>i<2 * 2. result_memory (matrix_inverse_mpi (\<lambda>r. mem_of_list [2, 1, 4, 3 :: rat])
          (\<lambda>r. 0) (\<lambda>r. 4) (\<lambda>r. 8) 2 2) 1 (0 + i) = mem_of_list [2, 1, 4, 3 :: rat] (0 + i)"
    by blast
  from this [rule_format, of 3]
  have b: "result_memory (matrix_inverse_mpi (\<lambda>r. mem_of_list [2, 1, 4, 3 :: rat])
          (\<lambda>r. 0) (\<lambda>r. 4) (\<lambda>r. 8) 2 2) 1 (0 + 3) = mem_of_list [2, 1, 4, 3 :: rat] (0 + 3)"
    by simp
  from h1 h2 h3 h4 run a b show ?thesis by blast
qed

section \<open>Concrete runs\<close>

text \<open>Rules that keep a concrete memory in the form \<open>mem_of_list xs\<close> while a run is
  evaluated.\<close>

lemma mem_of_list_upd:
  "a < length xs \<Longrightarrow> (mem_of_list xs)(a := v) = mem_of_list (xs[a := v])"
  by (auto simp: mem_of_list_def fun_eq_iff)

lemma mem_of_list_read: "a < length xs \<Longrightarrow> mem_of_list xs a = xs ! a"
  by (simp add: mem_of_list_def)

lemma list_update_numeral:
  "(x # xs)[numeral k := y] = x # xs[pred_numeral k := y]"
  by (simp add: numeral_eq_Suc)

lemma upt_0_2: "[0..<2] = [0, 1]"
  by (simp add: upt_rec)

lemma upt_0_3: "[0..<3] = [0, 1, 2]"
  by (simp add: upt_rec)

lemma upt_0_4: "[0..<4] = [0, 1, 2, 3]"
  by (simp add: upt_rec)

lemma upt_0_9: "[0..<9] = [0, 1, 2, 3, 4, 5, 6, 7, 8]"
  by (simp add: upt_rec)

lemmas run_rules = mem_of_list_upd mem_of_list_read list_update_numeral Let_def
  upt_0_2 upt_0_3 upt_0_4 upt_0_9

lemmas column_defs = inverse_column_def find_pivot_def swap_rows_def swap_cells_def
  scale_pivot_row_def eliminate_column_def eliminate_row_def
  start_row_def end_row_def rows_per_proc_def

subsection \<open>A singular \<open>2 \<times> 2\<close> matrix on one process\<close>

text \<open>
  \<open>A = [[2, 0], [2, 0]]\<close> at address 0, \<open>A_inv\<close> at 4 (holding 9s before the call) and
  \<open>work\<close> at 8. Column 0 is eliminated, column 1 has the pivot 0.
\<close>

lemma singular_run_init:
  "initialize_identity (copy_matrix (mem_of_list [2, 0, 2, 0, 9, 9, 9, 9, 7, 7, 7, 7 :: rat]) 0 8 2) 4 2
     = mem_of_list [2, 0, 2, 0, 1, 0, 0, 1, 2, 0, 2, 0]"
  by (simp add: copy_matrix_def initialize_identity_def run_rules)

lemma singular_run_column_0:
  "inverse_column (mem_of_list [2, 0, 2, 0, 1, 0, 0, 1, 2, 0, 2, 0 :: rat]) 8 4 0 1 2 0
     = Eliminated (mem_of_list [2, 0, 2, 0, 1 / 2, 0, - 1, 1, 1, 0, 0, 0])"
  by (simp add: column_defs run_rules upt_rec)

lemma singular_run_column_1:
  "inverse_column (mem_of_list [2, 0, 2, 0, 1 / 2, 0, - 1, 1, 1, 0, 0, 0 :: rat]) 8 4 0 1 2 1
     = Singular (mem_of_list [2, 0, 2, 0, 1 / 2, 0, - 1, 1, 1, 0, 0, 0])"
  by (simp add: column_defs run_rules upt_rec)

lemma singular_run:
  "singular_column (matrix_inverse_mpi (\<lambda>r. mem_of_list [2, 0, 2, 0, 9, 9, 9, 9, 7, 7, 7, 7 :: rat])
       (\<lambda>r. 0) (\<lambda>r. 4) (\<lambda>r. 8) 1 2) = Some 1
   \<and> result_memory (matrix_inverse_mpi (\<lambda>r. mem_of_list [2, 0, 2, 0, 9, 9, 9, 9, 7, 7, 7, 7 :: rat])
       (\<lambda>r. 0) (\<lambda>r. 4) (\<lambda>r. 8) 1 2) 0
     = mem_of_list [2, 0, 2, 0, 1 / 2, 0, - 1, 1, 1, 0, 0, 0]"
proof -
  let ?M1 = "mem_of_list [2, 0, 2, 0, 1, 0, 0, 1, 2, 0, 2, 0 :: rat]"
  let ?M2 = "mem_of_list [2, 0, 2, 0, 1 / 2, 0, - 1, 1, 1, 0, 0, 0 :: rat]"
  define ms1 where "ms1 =
    mpi_allgather_in_place
      (mpi_allgather_in_place (\<lambda>r. column_memory (inverse_column ?M1 8 4 r 1 2 0))
         (\<lambda>r. 8) (2 * rows_per_proc 2 1) 1)
      (\<lambda>r. 4) (2 * rows_per_proc 2 1) 1"
  have it0: "inverse_iteration (\<lambda>r. ?M1) (\<lambda>r. 8) (\<lambda>r. 4) 1 2 0 = Synchronized ms1"
    unfolding inverse_iteration_def Let_def ms1_def
    using singular_run_column_0 by simp
  have m1: "ms1 0 = ?M2"
    unfolding ms1_def mpi_allgather_in_place_def
    using singular_run_column_0
    by (simp add: rows_per_proc_def read_block_def write_block_def run_rules)
  have it1: "inverse_iteration ms1 (\<lambda>r. 8) (\<lambda>r. 4) 1 2 1
      = AllSingular (\<lambda>r. column_memory (inverse_column (ms1 r) 8 4 r 1 2 1))"
    unfolding inverse_iteration_def Let_def
    using singular_run_column_1 by (simp add: m1)
  have "matrix_inverse_mpi (\<lambda>r. mem_of_list [2, 0, 2, 0, 9, 9, 9, 9, 7, 7, 7, 7 :: rat])
       (\<lambda>r. 0) (\<lambda>r. 4) (\<lambda>r. 8) 1 2
      = MatrixSingular 1 (\<lambda>r. column_memory (inverse_column (ms1 r) 8 4 r 1 2 1))"
    unfolding matrix_inverse_mpi_def
    using it0 it1 by (simp add: singular_run_init upt_0_2)
  then show ?thesis
    using singular_run_column_1 by (simp add: m1)
qed

text \<open>
  Claim C3, as stated: when a pivot is below the threshold the partial inverse is
  discarded and the caller does not receive a partially eliminated accumulator. In the
  run above the call returns at column 1 reporting a singular matrix, and the caller's
  buffer \<open>A_inv\<close> (cells 4 to 7, holding 9s before the call) holds
  \<open>[[1/2, 0], [-1, 1]]\<close>: the identity after the scaling and elimination of column 0.
\<close>

theorem singular_return_keeps_partial_inverse_counterexample:
  "singular_column (matrix_inverse_mpi (\<lambda>r. mem_of_list [2, 0, 2, 0, 9, 9, 9, 9, 7, 7, 7, 7 :: rat])
       (\<lambda>r. 0) (\<lambda>r. 4) (\<lambda>r. 8) 1 2) = Some 1
   \<and> map (result_memory (matrix_inverse_mpi (\<lambda>r. mem_of_list [2, 0, 2, 0, 9, 9, 9, 9, 7, 7, 7, 7 :: rat])
       (\<lambda>r. 0) (\<lambda>r. 4) (\<lambda>r. 8) 1 2) 0) [4, 5, 6, 7] = [1 / 2, 0, - 1, 1]
   \<and> map (mem_of_list [2, 0, 2, 0, 9, 9, 9, 9, 7, 7, 7, 7 :: rat]) [4, 5, 6, 7] = [9, 9, 9, 9]"
  using singular_run by (simp add: mem_of_list_def)

lemma inverse_column_singular:
  assumes "\<bar>swap_rows m work A_inv n col (fst (find_pivot m work n col)) (work + (col * n + col))\<bar>
      < 1 / 10 ^ 10"
  shows "inverse_column m work A_inv rank psize n col
      = Singular (swap_rows m work A_inv n col (fst (find_pivot m work n col)))"
  using assms by (simp add: inverse_column_def Let_def)

text \<open>
  Claim C3, amended: if at a pivot column the pivot (the entry \<^verbatim>\<open>work[col * n + col]\<close> after
  the row swap) of every rank satisfies \<open>|pivot| < 1e-10\<close>, the call reports a singular
  matrix at that column and returns on every rank without processing further columns.
  Nothing is discarded or reset: the memory of each rank, and so the caller's \<open>A_inv\<close>, is
  the state the earlier columns produced with the row swap of this column applied.
\<close>

theorem singular_pivot_returns_partial_state:
  assumes "0 < psize"
    and "\<forall>r<psize.
      \<bar>swap_rows (ms r) (work r) (A_inv r) n col (fst (find_pivot (ms r) (work r) n col))
         (work r + (col * n + col))\<bar> < 1 / 10 ^ 10"
  shows "\<exists>ms'. inverse_columns ms work A_inv psize n (col # cols) = MatrixSingular col ms'
     \<and> (\<forall>r<psize. ms' r
           = swap_rows (ms r) (work r) (A_inv r) n col (fst (find_pivot (ms r) (work r) n col)))"
proof -
  let ?res = "\<lambda>r. inverse_column (ms r) (work r) (A_inv r) r psize n col"
  have res: "?res r = Singular (swap_rows (ms r) (work r) (A_inv r) n col
      (fst (find_pivot (ms r) (work r) n col)))" if "r < psize" for r
    using assms(2) that by (intro inverse_column_singular) blast
  have "filter (\<lambda>r. returned (?res r)) [0..<psize] = [0..<psize]"
    by (rule filter_True) (simp add: res)
  with assms(1) have "inverse_iteration ms work A_inv psize n col
      = AllSingular (\<lambda>r. column_memory (?res r))"
    by (simp add: inverse_iteration_def Let_def)
  then have "inverse_columns ms work A_inv psize n (col # cols)
      = MatrixSingular col (\<lambda>r. column_memory (?res r))"
    by simp
  moreover have "\<forall>r<psize. column_memory (?res r)
      = swap_rows (ms r) (work r) (A_inv r) n col (fst (find_pivot (ms r) (work r) n col))"
    by (simp add: res)
  ultimately show ?thesis by blast
qed

text \<open>The state of the run above at the start of column 1.\<close>

theorem singular_pivot_returns_partial_state_witness:
  "(0::nat) < 1
   \<and> \<bar>swap_rows (mem_of_list [2, 0, 2, 0, 1 / 2, 0, - 1, 1, 1, 0, 0, 0 :: rat]) 8 4 2 1
          (fst (find_pivot (mem_of_list [2, 0, 2, 0, 1 / 2, 0, - 1, 1, 1, 0, 0, 0 :: rat]) 8 2 1))
          (8 + (1 * 2 + 1))\<bar> < 1 / 10 ^ 10
   \<and> (\<exists>ms'. inverse_columns (\<lambda>r. mem_of_list [2, 0, 2, 0, 1 / 2, 0, - 1, 1, 1, 0, 0, 0 :: rat])
          (\<lambda>r. 8) (\<lambda>r. 4) 1 2 [1] = MatrixSingular 1 ms'
        \<and> ms' 0 = swap_rows (mem_of_list [2, 0, 2, 0, 1 / 2, 0, - 1, 1, 1, 0, 0, 0 :: rat]) 8 4 2 1
          (fst (find_pivot (mem_of_list [2, 0, 2, 0, 1 / 2, 0, - 1, 1, 1, 0, 0, 0 :: rat]) 8 2 1)))"
proof -
  let ?M = "mem_of_list [2, 0, 2, 0, 1 / 2, 0, - 1, 1, 1, 0, 0, 0 :: rat]"
  have h1: "(0::nat) < 1" by simp
  have p: "\<bar>swap_rows ?M 8 4 2 1 (fst (find_pivot ?M 8 2 1)) (8 + (1 * 2 + 1))\<bar> < 1 / 10 ^ 10"
    by (simp add: find_pivot_def swap_rows_def run_rules)
  then have h2: "\<forall>r<(1::nat). \<bar>swap_rows ((\<lambda>r. ?M) r) ((\<lambda>r. 8) r) ((\<lambda>r. 4) r) 2 1
      (fst (find_pivot ((\<lambda>r. ?M) r) ((\<lambda>r. 8) r) 2 1)) ((\<lambda>r. 8) r + (1 * 2 + 1))\<bar> < 1 / 10 ^ 10"
    by simp
  from singular_pivot_returns_partial_state [OF h1 h2, of "[]"]
  obtain ms' where "inverse_columns (\<lambda>r. ?M) (\<lambda>r. 8) (\<lambda>r. 4) 1 2 [1] = MatrixSingular 1 ms'"
    and "\<forall>r<(1::nat). ms' r = swap_rows ?M 8 4 2 1 (fst (find_pivot ?M 8 2 1))"
    by blast
  then have "inverse_columns (\<lambda>r. ?M) (\<lambda>r. 8) (\<lambda>r. 4) 1 2 [1] = MatrixSingular 1 ms'
      \<and> ms' 0 = swap_rows ?M 8 4 2 1 (fst (find_pivot ?M 8 2 1))"
    by simp
  with h1 p show ?thesis by blast
qed

subsection \<open>The all-gather\<close>

text \<open>What the all-gather delivers: cell \<open>k\<close> of block \<open>q\<close> comes from rank \<open>q\<close>.\<close>

lemma allgather_prefix_value:
  assumes "k < recvcount"
  shows "q < c \<Longrightarrow>
    foldl (\<lambda>m q. write_block m (buf + q * recvcount) (read_block (ms q) (src q + q * recvcount) recvcount))
      m0 [0..<c] (buf + q * recvcount + k) = ms q (src q + q * recvcount + k)"
proof (induction c)
  case 0
  then show ?case by simp
next
  case (Suc c)
  let ?f = "\<lambda>m q. write_block m (buf + q * recvcount) (read_block (ms q) (src q + q * recvcount) recvcount)"
  have unfold: "foldl ?f m0 [0..<Suc c] = ?f (foldl ?f m0 [0..<c]) c" by simp
  show ?case
  proof (cases "q = c")
    case True
    from assms show ?thesis
      unfolding unfold True
      by (simp add: write_block_apply length_read_block nth_read_block)
  next
    case False
    with Suc.prems have qc: "q < c" by simp
    then have "Suc q \<le> c" by simp
    then have "Suc q * recvcount \<le> c * recvcount" by (rule mult_le_mono1)
    with assms have "buf + q * recvcount + k < buf + c * recvcount" by simp
    then have "\<not> in_region (buf + c * recvcount) recvcount (buf + q * recvcount + k)"
      by (simp add: in_region_def)
    then have "?f (foldl ?f m0 [0..<c]) c (buf + q * recvcount + k)
        = foldl ?f m0 [0..<c] (buf + q * recvcount + k)"
      by (intro write_block_frame) (simp add: length_read_block)
    with Suc.IH [OF qc] show ?thesis unfolding unfold by simp
  qed
qed

lemma mpi_allgather_in_place_value:
  assumes "q < psize" "k < recvcount"
  shows "mpi_allgather_in_place ms recvbuf recvcount psize r (recvbuf r + q * recvcount + k)
     = ms q (recvbuf q + q * recvcount + k)"
  unfolding mpi_allgather_in_place_def
  by (rule allgather_prefix_value [OF assms(2) assms(1)])

text \<open>A row below \<open>psize * rows_per_proc\<close> lies in the block of the rank that owns it.\<close>

lemma exchanged_cell_offset:
  assumes i: "i < psize * (n div psize)" and j: "j < n"
  shows "\<exists>q k. q < psize \<and> k < n * (n div psize) \<and> i * n + j = q * (n * (n div psize)) + k
     \<and> i \<in> row_partition q psize n"
proof -
  let ?rpp = "n div psize"
  from i have pos: "0 < ?rpp" by (cases "?rpp") auto
  let ?q = "i div ?rpp"
  let ?k = "(i mod ?rpp) * n + j"
  from i pos have q: "?q < psize"
    by (simp add: less_mult_imp_div_less mult.commute)
  from pos have "i mod ?rpp < ?rpp" by simp
  with j have k: "?k < ?rpp * n" using cell_less_iff [OF j, of "i mod ?rpp" ?rpp] by simp
  have split: "(a * b + c) * n + j = a * (n * b) + (c * n + j)" for a b c :: nat
    by (simp add: algebra_simps)
  have "?q * ?rpp + i mod ?rpp = i" by (rule div_mult_mod_eq)
  then have "i * n + j = (?q * ?rpp + i mod ?rpp) * n + j" by (rule arg_cong [symmetric])
  also have "\<dots> = ?q * (n * ?rpp) + ?k" by (rule split)
  finally have eq: "i * n + j = ?q * (n * ?rpp) + ?k" .
  have lo: "?q * ?rpp \<le> i" by simp
  from pos have hi: "i < ?q * ?rpp + ?rpp"
    using dividend_less_div_times [of ?rpp i] by (simp add: mult.commute)
  have "i \<in> row_partition ?q psize n"
  proof (cases "?q + 1 = psize")
    case True
    have "psize * (n div psize) \<le> n" by simp
    with i have "i < n" by (rule less_le_trans)
    with lo True show ?thesis
      by (simp add: row_partition_def start_row_def end_row_def rows_per_proc_def)
  next
    case False
    with lo hi show ?thesis
      by (simp add: row_partition_def start_row_def end_row_def rows_per_proc_def)
  qed
  with q k eq show ?thesis by (auto simp: mult.commute)
qed


lemma regions_disjoint_sym: "regions_disjoint p q len \<Longrightarrow> regions_disjoint q p len"
  by (auto simp: regions_disjoint_def)

text \<open>
  After the synchronisation every rank holds the rows below \<open>psize * rows_per_proc\<close> of
  both matrices as their owner left them.
\<close>

lemma synchronized_rows_from_owner:
  assumes r: "r < psize" and i: "i < psize * (n div psize)" and j: "j < n"
    and dis: "\<And>q. q < psize \<Longrightarrow> regions_disjoint (A_inv q) (work q) (n * n)"
    and sync: "inverse_iteration ms work A_inv psize n col = Synchronized ms'"
  shows "\<exists>q<psize. i \<in> row_partition q psize n
     \<and> ms' r (work r + (i * n + j))
         = column_memory (inverse_column (ms q) (work q) (A_inv q) q psize n col) (work q + (i * n + j))
     \<and> ms' r (A_inv r + (i * n + j))
         = column_memory (inverse_column (ms q) (work q) (A_inv q) q psize n col) (A_inv q + (i * n + j))"
proof -
  let ?local = "\<lambda>r. column_memory (inverse_column (ms r) (work r) (A_inv r) r psize n col)"
  let ?count = "n * rows_per_proc n psize"
  let ?g1 = "mpi_allgather_in_place ?local work ?count psize"
  from sync have ms': "ms' = mpi_allgather_in_place ?g1 A_inv ?count psize"
    by (simp add: inverse_iteration_def Let_def split: if_splits)
  have cnt: "psize * ?count \<le> n * n"
    unfolding rows_per_proc_def by (rule allgather_count_le)
  have "psize * (n div psize) \<le> n" by simp
  with i have i_n: "i < n" by (rule less_le_trans)
  from exchanged_cell_offset [OF i j]
  obtain q k where q: "q < psize" and k: "k < ?count"
    and cell: "i * n + j = q * ?count + k" and own: "i \<in> row_partition q psize n"
    by (auto simp: rows_per_proc_def)
  have cell_r: "b + (i * n + j) = b + q * ?count + k" for b
    using cell by simp
  have "ms' r (work r + (i * n + j)) = ?g1 r (work r + (i * n + j))"
    unfolding ms'
    by (rule mpi_allgather_in_place_frame [where recvbuf = A_inv and r = r,
          OF disjoint_not_in_region [OF dis [OF r] cell_bound [OF i_n j]] cnt])
  also have "\<dots> = ?local q (work q + (i * n + j))"
    unfolding cell_r by (rule mpi_allgather_in_place_value [OF q k])
  finally have w: "ms' r (work r + (i * n + j)) = ?local q (work q + (i * n + j))" .
  have "ms' r (A_inv r + (i * n + j)) = ?g1 q (A_inv q + (i * n + j))"
    unfolding ms' cell_r by (rule mpi_allgather_in_place_value [OF q k])
  also have "\<dots> = ?local q (A_inv q + (i * n + j))"
    by (rule mpi_allgather_in_place_frame [where recvbuf = work and r = q,
          OF disjoint_not_in_region [OF regions_disjoint_sym [OF dis [OF q]] cell_bound [OF i_n j]] cnt])
  finally have a: "ms' r (A_inv r + (i * n + j)) = ?local q (A_inv q + (i * n + j))" .
  from q own w a show ?thesis by blast
qed

text \<open>When the process count divides \<open>n\<close> these are all rows.\<close>

lemma synchronized_when_divisible:
  assumes "r < psize" "psize dvd n" "i < n" "j < n"
    and "\<And>q. q < psize \<Longrightarrow> regions_disjoint (A_inv q) (work q) (n * n)"
    and "inverse_iteration ms work A_inv psize n col = Synchronized ms'"
  shows "\<exists>q<psize. i \<in> row_partition q psize n
     \<and> ms' r (work r + (i * n + j))
         = column_memory (inverse_column (ms q) (work q) (A_inv q) q psize n col) (work q + (i * n + j))
     \<and> ms' r (A_inv r + (i * n + j))
         = column_memory (inverse_column (ms q) (work q) (A_inv q) q psize n col) (A_inv q + (i * n + j))"
proof -
  from assms(2) have "psize * (n div psize) = n" by simp
  with assms(3) have "i < psize * (n div psize)" by simp
  from synchronized_rows_from_owner [OF assms(1) this assms(4) assms(5) assms(6)]
  show ?thesis .
qed

subsection \<open>A \<open>3 \<times> 3\<close> matrix on two processes\<close>

text \<open>
  \<open>A = [[1, 0, 0], [0, 1, 0], [1, 0, 1]]\<close> at address 0 on both ranks, \<open>A_inv\<close> at 9 and \<open>work\<close>
  at 18. \<^verbatim>\<open>rows_per_proc\<close> is 1: rank 0 owns row 0, rank 1 owns rows 1 and 2, and each
  all-gather exchanges \<open>3 * 1\<close> cells per rank, that is rows 0 and 1.
\<close>

lemma remainder_run_init:
  "initialize_identity (copy_matrix (mem_of_list
       [1, 0, 0, 0, 1, 0, 1, 0, 1, 5, 5, 5, 5, 5, 5, 5, 5, 5, 5, 5, 5, 5, 5, 5, 5, 5, 5 :: rat]) 0 18 3) 9 3
     = mem_of_list
       [1, 0, 0, 0, 1, 0, 1, 0, 1, 1, 0, 0, 0, 1, 0, 0, 0, 1, 1, 0, 0, 0, 1, 0, 1, 0, 1]"
  by (simp add: copy_matrix_def initialize_identity_def run_rules)

lemma remainder_run_rank_0:
  "inverse_column (mem_of_list
       [1, 0, 0, 0, 1, 0, 1, 0, 1, 1, 0, 0, 0, 1, 0, 0, 0, 1, 1, 0, 0, 0, 1, 0, 1, 0, 1 :: rat])
     18 9 0 2 3 0
   = Eliminated (mem_of_list
       [1, 0, 0, 0, 1, 0, 1, 0, 1, 1, 0, 0, 0, 1, 0, 0, 0, 1, 1, 0, 0, 0, 1, 0, 1, 0, 1])"
  by (simp add: column_defs run_rules upt_rec)

lemma remainder_run_rank_1:
  "inverse_column (mem_of_list
       [1, 0, 0, 0, 1, 0, 1, 0, 1, 1, 0, 0, 0, 1, 0, 0, 0, 1, 1, 0, 0, 0, 1, 0, 1, 0, 1 :: rat])
     18 9 1 2 3 0
   = Eliminated (mem_of_list
       [1, 0, 0, 0, 1, 0, 1, 0, 1, 1, 0, 0, 0, 1, 0, - 1, 0, 1, 1, 0, 0, 0, 1, 0, 0, 0, 1])"
  by (simp add: column_defs run_rules upt_rec)

lemma remainder_run_iteration:
  "synchronized (inverse_iteration (\<lambda>r. mem_of_list
       [1, 0, 0, 0, 1, 0, 1, 0, 1, 1, 0, 0, 0, 1, 0, 0, 0, 1, 1, 0, 0, 0, 1, 0, 1, 0, 1 :: rat])
     (\<lambda>r. 18) (\<lambda>r. 9) 2 3 0)
   \<and> iteration_memory (inverse_iteration (\<lambda>r. mem_of_list
       [1, 0, 0, 0, 1, 0, 1, 0, 1, 1, 0, 0, 0, 1, 0, 0, 0, 1, 1, 0, 0, 0, 1, 0, 1, 0, 1 :: rat])
     (\<lambda>r. 18) (\<lambda>r. 9) 2 3 0) 0
     = mem_of_list
       [1, 0, 0, 0, 1, 0, 1, 0, 1, 1, 0, 0, 0, 1, 0, 0, 0, 1, 1, 0, 0, 0, 1, 0, 1, 0, 1]
   \<and> iteration_memory (inverse_iteration (\<lambda>r. mem_of_list
       [1, 0, 0, 0, 1, 0, 1, 0, 1, 1, 0, 0, 0, 1, 0, 0, 0, 1, 1, 0, 0, 0, 1, 0, 1, 0, 1 :: rat])
     (\<lambda>r. 18) (\<lambda>r. 9) 2 3 0) 1
     = mem_of_list
       [1, 0, 0, 0, 1, 0, 1, 0, 1, 1, 0, 0, 0, 1, 0, - 1, 0, 1, 1, 0, 0, 0, 1, 0, 0, 0, 1]"
  unfolding inverse_iteration_def Let_def mpi_allgather_in_place_def
  using remainder_run_rank_0 remainder_run_rank_1
  by (simp add: rows_per_proc_def read_block_def write_block_def run_rules)


text \<open>
  The all-gather covers the rows below \<open>psize * (n div psize)\<close> only: a later row of
  \<open>work\<close> on rank \<open>r\<close> is, after the synchronisation, what rank \<open>r\<close> itself computed,
  whoever owns the row.
\<close>

lemma allgather_skips_remainder_rows:
  assumes r: "r < psize" and i: "psize * (n div psize) \<le> i" "i < n" and j: "j < n"
    and dis: "regions_disjoint (A_inv r) (work r) (n * n)"
    and sync: "inverse_iteration ms work A_inv psize n col = Synchronized ms'"
  shows "ms' r (work r + (i * n + j))
     = column_memory (inverse_column (ms r) (work r) (A_inv r) r psize n col) (work r + (i * n + j))"
proof -
  let ?local = "\<lambda>r. column_memory (inverse_column (ms r) (work r) (A_inv r) r psize n col)"
  let ?count = "n * rows_per_proc n psize"
  from sync have ms': "ms' = mpi_allgather_in_place
      (mpi_allgather_in_place ?local work ?count psize) A_inv ?count psize"
    by (simp add: inverse_iteration_def Let_def split: if_splits)
  have cnt: "psize * ?count \<le> n * n"
    unfolding rows_per_proc_def by (rule allgather_count_le)
  have a: "psize * ?count = (psize * (n div psize)) * n"
    by (simp add: rows_per_proc_def)
  from i(1) have b: "(psize * (n div psize)) * n \<le> i * n" by (rule mult_le_mono1)
  have "psize * ?count \<le> i * n + j"
    unfolding a using b by (rule trans_le_add1)
  then have out_work: "\<not> in_region (work r) (psize * ?count) (work r + (i * n + j))"
    by (simp add: in_region_def)
  from disjoint_not_in_region [OF dis cell_bound [OF i(2) j]]
  have out_inv: "\<not> in_region (A_inv r) (n * n) (work r + (i * n + j))" .
  have "ms' r (work r + (i * n + j))
      = mpi_allgather_in_place ?local work ?count psize r (work r + (i * n + j))"
    unfolding ms'
    by (rule mpi_allgather_in_place_frame [where recvbuf = A_inv and r = r, OF out_inv cnt])
  also have "\<dots> = ?local r (work r + (i * n + j))"
    by (rule mpi_allgather_in_place_frame [where recvbuf = work and r = r, OF out_work]) simp
  finally show ?thesis .
qed

text \<open>
  Claim C2 says that after the all-gather of each pivot column every process holds the
  merged matrices, each row as eliminated by its owner, for every \<open>n\<close> and process count.
  In the run above, after the all-gather of column 0, row 2 of \<open>work\<close> (cells 24 to 26) and
  of \<open>A_inv\<close> (cells 15 to 17) on rank 0 is still the row from before the elimination,
  while its owner, rank 1, holds the eliminated row.
\<close>

theorem allgather_misses_remainder_rows:
  "synchronized (inverse_iteration (\<lambda>r. mem_of_list
       [1, 0, 0, 0, 1, 0, 1, 0, 1, 1, 0, 0, 0, 1, 0, 0, 0, 1, 1, 0, 0, 0, 1, 0, 1, 0, 1 :: rat])
     (\<lambda>r. 18) (\<lambda>r. 9) 2 3 0)
   \<and> map (iteration_memory (inverse_iteration (\<lambda>r. mem_of_list
       [1, 0, 0, 0, 1, 0, 1, 0, 1, 1, 0, 0, 0, 1, 0, 0, 0, 1, 1, 0, 0, 0, 1, 0, 1, 0, 1 :: rat])
     (\<lambda>r. 18) (\<lambda>r. 9) 2 3 0) 0) [24, 25, 26, 15, 16, 17] = [1, 0, 1, 0, 0, 1]
   \<and> map (iteration_memory (inverse_iteration (\<lambda>r. mem_of_list
       [1, 0, 0, 0, 1, 0, 1, 0, 1, 1, 0, 0, 0, 1, 0, 0, 0, 1, 1, 0, 0, 0, 1, 0, 1, 0, 1 :: rat])
     (\<lambda>r. 18) (\<lambda>r. 9) 2 3 0) 1) [24, 25, 26, 15, 16, 17] = [0, 0, 1, - 1, 0, 1]"
  using remainder_run_iteration by (simp add: mem_of_list_def)

text \<open>
  The rest of the run. Columns 1 and 2 change nothing on either rank, so the call
  returns with the inverse \<open>[[1, 0, 0], [0, 1, 0], [-1, 0, 1]]\<close> in \<open>A_inv\<close> on rank 1 only: on
  rank 0, \<open>A_inv\<close> is the identity and \<open>work\<close> is still \<open>A\<close>.
\<close>

lemma remainder_run_rank_0_later:
  "inverse_column (mem_of_list
       [1, 0, 0, 0, 1, 0, 1, 0, 1, 1, 0, 0, 0, 1, 0, 0, 0, 1, 1, 0, 0, 0, 1, 0, 1, 0, 1 :: rat])
     18 9 0 2 3 1
   = Eliminated (mem_of_list
       [1, 0, 0, 0, 1, 0, 1, 0, 1, 1, 0, 0, 0, 1, 0, 0, 0, 1, 1, 0, 0, 0, 1, 0, 1, 0, 1])"
  "inverse_column (mem_of_list
       [1, 0, 0, 0, 1, 0, 1, 0, 1, 1, 0, 0, 0, 1, 0, 0, 0, 1, 1, 0, 0, 0, 1, 0, 1, 0, 1 :: rat])
     18 9 0 2 3 2
   = Eliminated (mem_of_list
       [1, 0, 0, 0, 1, 0, 1, 0, 1, 1, 0, 0, 0, 1, 0, 0, 0, 1, 1, 0, 0, 0, 1, 0, 1, 0, 1])"
  by (simp_all add: column_defs run_rules upt_rec)

lemma remainder_run_rank_1_later:
  "inverse_column (mem_of_list
       [1, 0, 0, 0, 1, 0, 1, 0, 1, 1, 0, 0, 0, 1, 0, - 1, 0, 1, 1, 0, 0, 0, 1, 0, 0, 0, 1 :: rat])
     18 9 1 2 3 1
   = Eliminated (mem_of_list
       [1, 0, 0, 0, 1, 0, 1, 0, 1, 1, 0, 0, 0, 1, 0, - 1, 0, 1, 1, 0, 0, 0, 1, 0, 0, 0, 1])"
  "inverse_column (mem_of_list
       [1, 0, 0, 0, 1, 0, 1, 0, 1, 1, 0, 0, 0, 1, 0, - 1, 0, 1, 1, 0, 0, 0, 1, 0, 0, 0, 1 :: rat])
     18 9 1 2 3 2
   = Eliminated (mem_of_list
       [1, 0, 0, 0, 1, 0, 1, 0, 1, 1, 0, 0, 0, 1, 0, - 1, 0, 1, 1, 0, 0, 0, 1, 0, 0, 0, 1])"
  by (simp_all add: column_defs run_rules upt_rec)

lemma remainder_run_later_iteration:
  assumes "ms 0 = mem_of_list
       [1, 0, 0, 0, 1, 0, 1, 0, 1, 1, 0, 0, 0, 1, 0, 0, 0, 1, 1, 0, 0, 0, 1, 0, 1, 0, 1 :: rat]"
    and "ms 1 = mem_of_list
       [1, 0, 0, 0, 1, 0, 1, 0, 1, 1, 0, 0, 0, 1, 0, - 1, 0, 1, 1, 0, 0, 0, 1, 0, 0, 0, 1]"
    and "col = 1 \<or> col = 2"
  shows "\<exists>ms'. inverse_iteration ms (\<lambda>r. 18) (\<lambda>r. 9) 2 3 col = Synchronized ms'
     \<and> ms' 0 = mem_of_list
       [1, 0, 0, 0, 1, 0, 1, 0, 1, 1, 0, 0, 0, 1, 0, 0, 0, 1, 1, 0, 0, 0, 1, 0, 1, 0, 1]
     \<and> ms' 1 = mem_of_list
       [1, 0, 0, 0, 1, 0, 1, 0, 1, 1, 0, 0, 0, 1, 0, - 1, 0, 1, 1, 0, 0, 0, 1, 0, 0, 0, 1]"
  unfolding inverse_iteration_def Let_def mpi_allgather_in_place_def
  using assms remainder_run_rank_0_later remainder_run_rank_1_later
  by (auto simp: rows_per_proc_def read_block_def write_block_def run_rules)

lemma remainder_run_result:
  "\<exists>ms'. matrix_inverse_mpi (\<lambda>r. mem_of_list
       [1, 0, 0, 0, 1, 0, 1, 0, 1, 5, 5, 5, 5, 5, 5, 5, 5, 5, 5, 5, 5, 5, 5, 5, 5, 5, 5 :: rat])
       (\<lambda>r. 0) (\<lambda>r. 9) (\<lambda>r. 18) 2 3 = Inverted ms'
     \<and> ms' 0 = mem_of_list
       [1, 0, 0, 0, 1, 0, 1, 0, 1, 1, 0, 0, 0, 1, 0, 0, 0, 1, 1, 0, 0, 0, 1, 0, 1, 0, 1]
     \<and> ms' 1 = mem_of_list
       [1, 0, 0, 0, 1, 0, 1, 0, 1, 1, 0, 0, 0, 1, 0, - 1, 0, 1, 1, 0, 0, 0, 1, 0, 0, 0, 1]"
proof -
  let ?X = "mem_of_list
       [1, 0, 0, 0, 1, 0, 1, 0, 1, 1, 0, 0, 0, 1, 0, 0, 0, 1, 1, 0, 0, 0, 1, 0, 1, 0, 1 :: rat]"
  let ?Y = "mem_of_list
       [1, 0, 0, 0, 1, 0, 1, 0, 1, 1, 0, 0, 0, 1, 0, - 1, 0, 1, 1, 0, 0, 0, 1, 0, 0, 0, 1 :: rat]"
  from remainder_run_iteration
  obtain ms1 where it0: "inverse_iteration (\<lambda>r. ?X) (\<lambda>r. 18) (\<lambda>r. 9) 2 3 0 = Synchronized ms1"
    and m1: "ms1 0 = ?X" "ms1 1 = ?Y"
    by (cases "inverse_iteration (\<lambda>r. ?X) (\<lambda>r. 18) (\<lambda>r. 9) 2 3 0") simp_all
  from remainder_run_later_iteration [OF m1, of 1]
  obtain ms2 where it1: "inverse_iteration ms1 (\<lambda>r. 18) (\<lambda>r. 9) 2 3 1 = Synchronized ms2"
    and m2: "ms2 0 = ?X" "ms2 1 = ?Y"
    by auto
  from remainder_run_later_iteration [OF m2, of 2]
  obtain ms3 where it2: "inverse_iteration ms2 (\<lambda>r. 18) (\<lambda>r. 9) 2 3 2 = Synchronized ms3"
    and m3: "ms3 0 = ?X" "ms3 1 = ?Y"
    by auto
  have "matrix_inverse_mpi (\<lambda>r. mem_of_list
       [1, 0, 0, 0, 1, 0, 1, 0, 1, 5, 5, 5, 5, 5, 5, 5, 5, 5, 5, 5, 5, 5, 5, 5, 5, 5, 5 :: rat])
       (\<lambda>r. 0) (\<lambda>r. 9) (\<lambda>r. 18) 2 3 = Inverted ms3"
    unfolding matrix_inverse_mpi_def
    using it0 it1 it2 by (simp add: remainder_run_init upt_0_3)
  with m3 show ?thesis by blast
qed

section \<open>The bottleneck report\<close>

lemma ratio_in_range_iff:
  fixes c m :: real
  assumes "c + m \<noteq> 0"
  shows "0 \<le> m / (c + m) * 100 \<and> m / (c + m) * 100 \<le> 100 \<longleftrightarrow> 0 \<le> c * m"
proof -
  have scale: "(0 \<le> x * 100 \<longleftrightarrow> 0 \<le> x) \<and> (x * 100 \<le> 100 \<longleftrightarrow> x \<le> 1)" for x :: real
    by arith
  from scale [of "m / (c + m)"]
  have a: "0 \<le> m / (c + m) * 100 \<longleftrightarrow> 0 \<le> m / (c + m)"
    and b: "m / (c + m) * 100 \<le> 100 \<longleftrightarrow> m / (c + m) \<le> 1"
    by blast+
  show ?thesis
  proof (cases "0 < c + m")
    case True
    then have "0 \<le> m / (c + m) \<longleftrightarrow> 0 \<le> m" "m / (c + m) \<le> 1 \<longleftrightarrow> 0 \<le> c"
      by (simp_all add: zero_le_divide_iff divide_le_eq)
    moreover from True have "0 \<le> m \<and> 0 \<le> c \<longleftrightarrow> 0 \<le> c * m"
      by (auto simp: zero_le_mult_iff)
    ultimately show ?thesis unfolding a b by blast
  next
    case False
    with assms have neg: "c + m < 0" by simp
    then have "0 \<le> m / (c + m) \<longleftrightarrow> m \<le> 0" "m / (c + m) \<le> 1 \<longleftrightarrow> c \<le> 0"
      by (simp_all add: zero_le_divide_iff divide_le_eq)
    moreover from neg have "m \<le> 0 \<and> c \<le> 0 \<longleftrightarrow> 0 \<le> c * m"
      by (auto simp: zero_le_mult_iff)
    ultimately show ?thesis unfolding a b by blast
  qed
qed

lemma average_ratio:
  fixes tc tm :: real
  assumes "0 < psize"
  shows "tm / real psize / (tc / real psize + tm / real psize) = tm / (tc + tm)"
proof -
  from assms have p: "real psize \<noteq> 0" by simp
  have "tc / real psize + tm / real psize = (tc + tm) / real psize"
    by (simp add: add_divide_distrib)
  with p show ?thesis by simp
qed

text \<open>
  Claim C7, as stated: the overhead written always lies between 0 and 100. \<^verbatim>\<open>main\<close>
  passes \<^verbatim>\<open>mult_time\<close> and \<^verbatim>\<open>mult_comm\<close>; with the clock readings 0 (monitor created),
  1 (\<^verbatim>\<open>mult_start\<close>), 5 (\<^verbatim>\<open>stop\<close>) and 5 (the reading in \<^verbatim>\<open>mult_comm\<close>) on a single process
  the communication time is \<open>-1\<close> and the line written says \<open>-25\<close> percent.
\<close>

theorem overhead_out_of_range_counterexample:
  "mult_times 0 1 5 5 = (5, - 1)
   \<and> analyze_communication 0 1 (\<lambda>r. fst (mult_times 0 1 5 5)) (\<lambda>r. snd (mult_times 0 1 5 5)) True [] ! 3
       = [Str ''Communication Overhead: '', DoubleVal (Some (- 25)), Str ''%'']"
  by (simp add: analyze_communication_def mult_times_def mpi_reduce_sum_def comm_ratio_def Let_def)

text \<open>
  Claim C7, amended: the overhead that rank 0 writes is
  \<open>avg_comm / (avg_comp + avg_comm) * 100\<close> for every run in which the divisor is not zero
  (with a zero divisor no number is written), where the averages are the sums over all
  ranks divided by the process count. The value is not clamped: it lies between 0 and
  100 exactly when the two sums do not have opposite signs.
\<close>

theorem overhead_metric_unclamped:
  assumes "0 < psize"
  shows "analyze_communication 0 psize comp_time comm_time True logfile ! (length logfile + 3)
       = [Str ''Communication Overhead: '',
          DoubleVal (if mpi_reduce_sum comp_time psize + mpi_reduce_sum comm_time psize = 0 then None
            else Some (mpi_reduce_sum comm_time psize / real psize
              / (mpi_reduce_sum comp_time psize / real psize + mpi_reduce_sum comm_time psize / real psize)
              * 100)),
          Str ''%'']
     \<and> (mpi_reduce_sum comp_time psize + mpi_reduce_sum comm_time psize \<noteq> 0 \<longrightarrow>
          (0 \<le> mpi_reduce_sum comm_time psize / real psize
              / (mpi_reduce_sum comp_time psize / real psize + mpi_reduce_sum comm_time psize / real psize)
              * 100
           \<and> mpi_reduce_sum comm_time psize / real psize
              / (mpi_reduce_sum comp_time psize / real psize + mpi_reduce_sum comm_time psize / real psize)
              * 100 \<le> 100
           \<longleftrightarrow> 0 \<le> mpi_reduce_sum comp_time psize * mpi_reduce_sum comm_time psize))"
proof -
  let ?tc = "mpi_reduce_sum comp_time psize"
  let ?tm = "mpi_reduce_sum comm_time psize"
  from assms have p: "real psize \<noteq> 0" by simp
  have "?tc / real psize + ?tm / real psize = (?tc + ?tm) / real psize"
    by (simp add: add_divide_distrib)
  with p have zero: "?tc / real psize + ?tm / real psize = 0 \<longleftrightarrow> ?tc + ?tm = 0" by simp
  have line: "analyze_communication 0 psize comp_time comm_time True logfile ! (length logfile + 3)
      = [Str ''Communication Overhead: '',
         DoubleVal (comm_ratio (?tc / real psize) (?tm / real psize)), Str ''%'']"
    by (simp add: analyze_communication_def Let_def nth_append)
  have ratio: "comm_ratio (?tc / real psize) (?tm / real psize)
      = (if ?tc + ?tm = 0 then None
         else Some (?tm / real psize / (?tc / real psize + ?tm / real psize) * 100))"
    unfolding comm_ratio_def zero by simp
  have range: "0 \<le> ?tm / real psize / (?tc / real psize + ?tm / real psize) * 100
           \<and> ?tm / real psize / (?tc / real psize + ?tm / real psize) * 100 \<le> 100
           \<longleftrightarrow> 0 \<le> ?tc * ?tm" if "?tc + ?tm \<noteq> 0"
    unfolding average_ratio [OF assms] by (rule ratio_in_range_iff [OF that])
  from line ratio range show ?thesis by simp
qed

text \<open>Two processes with the times 3 and 1 each: 25 percent. With the times 5 and
  \<open>-1\<close> each: outside the range.\<close>

theorem overhead_metric_unclamped_witness:
  "(0::nat) < 2
   \<and> analyze_communication 0 2 (\<lambda>r. 3) (\<lambda>r. 1) True [] ! 3
       = [Str ''Communication Overhead: '', DoubleVal (Some 25), Str ''%'']
   \<and> mpi_reduce_sum (\<lambda>r. 5) 2 + mpi_reduce_sum (\<lambda>r. - 1) 2 \<noteq> 0
   \<and> \<not> (0 \<le> mpi_reduce_sum (\<lambda>r. - 1) 2 / real (2::nat)
              / (mpi_reduce_sum (\<lambda>r. 5) 2 / real (2::nat) + mpi_reduce_sum (\<lambda>r. - 1) 2 / real (2::nat))
              * 100
           \<and> mpi_reduce_sum (\<lambda>r. - 1) 2 / real (2::nat)
              / (mpi_reduce_sum (\<lambda>r. 5) 2 / real (2::nat) + mpi_reduce_sum (\<lambda>r. - 1) 2 / real (2::nat))
              * 100 \<le> 100)"
proof -
  have h2: "(0::nat) < 2" by simp
  have s: "mpi_reduce_sum (\<lambda>r. 3) 2 = 6" "mpi_reduce_sum (\<lambda>r. 1) 2 = 2"
    "mpi_reduce_sum (\<lambda>r. 5) 2 = 10" "mpi_reduce_sum (\<lambda>r. - 1) 2 = - 2"
    by (simp_all add: mpi_reduce_sum_def upt_rec)
  from overhead_metric_unclamped [OF h2, of "\<lambda>r. 3" "\<lambda>r. 1" "[]"]
  have a: "analyze_communication 0 2 (\<lambda>r. 3) (\<lambda>r. 1) True [] ! 3
       = [Str ''Communication Overhead: '', DoubleVal (Some 25), Str ''%'']"
    by (simp add: s)
  have nz: "mpi_reduce_sum (\<lambda>r. 5) 2 + mpi_reduce_sum (\<lambda>r. - 1) 2 \<noteq> 0"
    by (simp add: s)
  have neg: "\<not> 0 \<le> mpi_reduce_sum (\<lambda>r. 5) 2 * mpi_reduce_sum (\<lambda>r. - 1) 2"
    by (simp add: s)
  from overhead_metric_unclamped [OF h2, of "\<lambda>r. 5" "\<lambda>r. - 1" "[]"] nz neg
  have b: "\<not> (0 \<le> mpi_reduce_sum (\<lambda>r. - 1) 2 / real (2::nat)
              / (mpi_reduce_sum (\<lambda>r. 5) 2 / real (2::nat) + mpi_reduce_sum (\<lambda>r. - 1) 2 / real (2::nat))
              * 100
           \<and> mpi_reduce_sum (\<lambda>r. - 1) 2 / real (2::nat)
              / (mpi_reduce_sum (\<lambda>r. 5) 2 / real (2::nat) + mpi_reduce_sum (\<lambda>r. - 1) 2 / real (2::nat))
              * 100 \<le> 100)"
    by blast
  from h2 a nz b show ?thesis by blast
qed

text \<open>
  Claim C8, as stated: the record holds a load-imbalance percentage. The record of a
  run on two processes has four numbers (process count, the two averages, the overhead),
  and it is the same whether the two computation times are 1 and 3 or 2 and 2.
\<close>

theorem record_without_load_imbalance_counterexample:
  "numbers_of (analyze_communication 0 2 (\<lambda>r. [1, 3] ! r) (\<lambda>r. [1, 1] ! r) True [])
     = [IntVal 2, DoubleVal (Some 2), DoubleVal (Some 1), DoubleVal (Some (100 / 3))]
   \<and> analyze_communication 0 2 (\<lambda>r. [1, 3] ! r) (\<lambda>r. [1, 1] ! r) True []
     = analyze_communication 0 2 (\<lambda>r. [2, 2] ! r) (\<lambda>r. [1, 1] ! r) True []"
  by (simp add: analyze_communication_def mpi_reduce_sum_def comm_ratio_def numbers_of_def Let_def
      upt_rec)

text \<open>
  Claim C8, amended: a call of \<^verbatim>\<open>analyze_communication\<close> appends exactly one record, on
  rank 0 and when the report file can be opened: five lines holding the process count,
  the average computation time, the average communication time and the overhead
  percentage, closed by the separator. No load imbalance is computed or written. The
  other ranks write nothing, and nothing is written when the file cannot be opened.
\<close>

theorem bottleneck_record_written_once:
  "take (length logfile) (analyze_communication 0 psize comp_time comm_time True logfile) = logfile
   \<and> length (analyze_communication 0 psize comp_time comm_time True logfile) = length logfile + 5
   \<and> numbers_of (drop (length logfile) (analyze_communication 0 psize comp_time comm_time True logfile))
       = [IntVal psize,
          DoubleVal (Some (mpi_reduce_sum comp_time psize / real psize)),
          DoubleVal (Some (mpi_reduce_sum comm_time psize / real psize)),
          DoubleVal (comm_ratio (mpi_reduce_sum comp_time psize / real psize)
                                (mpi_reduce_sum comm_time psize / real psize))]
   \<and> last (analyze_communication 0 psize comp_time comm_time True logfile) = [Str ''---'']
   \<and> analyze_communication (Suc rank) psize comp_time comm_time opened logfile = logfile
   \<and> analyze_communication rank psize comp_time comm_time False logfile = logfile"
  by (simp add: analyze_communication_def numbers_of_def Let_def)

section \<open>Saving a matrix\<close>

lemma digit_char_inj:
  assumes "d < 10" "d' < 10" "digit_char d = digit_char d'"
  shows "d = d'"
proof -
  from assms(1) have "d \<in> {0, 1, 2, 3, 4, 5, 6, 7, 8, 9}" by auto
  moreover from assms(2) have "d' \<in> {0, 1, 2, 3, 4, 5, 6, 7, 8, 9}" by auto
  ultimately show ?thesis using assms(3)
    by (auto simp: digit_char_def)
qed

lemma string_of_nat_not_empty: "string_of_nat n \<noteq> []"
  by (subst string_of_nat.simps) simp

lemma length_string_of_nat_ge_2: "10 \<le> n \<Longrightarrow> 2 \<le> length (string_of_nat n)"
proof -
  assume "10 \<le> n"
  then have "string_of_nat n = string_of_nat (n div 10) @ [digit_char (n mod 10)]"
    by (subst string_of_nat.simps) simp
  moreover have "1 \<le> length (string_of_nat (n div 10))"
    using string_of_nat_not_empty [of "n div 10"] by (cases "string_of_nat (n div 10)") simp_all
  ultimately show ?thesis by simp
qed

lemma string_of_nat_inj: "string_of_nat n = string_of_nat k \<Longrightarrow> n = k"
proof (induction n arbitrary: k rule: string_of_nat.induct)
  case (1 n)
  show ?case
  proof (cases "n < 10")
    case small: True
    then have sn: "string_of_nat n = [digit_char n]"
      by (subst string_of_nat.simps) simp
    show ?thesis
    proof (cases "k < 10")
      case True
      then have "string_of_nat k = [digit_char k]"
        by (subst string_of_nat.simps) simp
      with sn "1.prems" have "digit_char n = digit_char k" by simp
      from digit_char_inj [OF small True this] show ?thesis .
    next
      case False
      then have "2 \<le> length (string_of_nat k)" by (intro length_string_of_nat_ge_2) simp
      with sn "1.prems" show ?thesis by simp
    qed
  next
    case big: False
    then have sn: "string_of_nat n = string_of_nat (n div 10) @ [digit_char (n mod 10)]"
      by (subst string_of_nat.simps) simp
    show ?thesis
    proof (cases "k < 10")
      case True
      then have "string_of_nat k = [digit_char k]"
        by (subst string_of_nat.simps) simp
      moreover from big have "2 \<le> length (string_of_nat n)"
        by (intro length_string_of_nat_ge_2) simp
      ultimately show ?thesis using "1.prems" by simp
    next
      case False
      then have "string_of_nat k = string_of_nat (k div 10) @ [digit_char (k mod 10)]"
        by (subst string_of_nat.simps) simp
      with sn "1.prems" have eq: "string_of_nat (n div 10) = string_of_nat (k div 10)"
        and d: "digit_char (n mod 10) = digit_char (k mod 10)" by simp_all
      from "1.IH" [OF big eq] have "n div 10 = k div 10" .
      moreover from digit_char_inj [OF _ _ d] have "n mod 10 = k mod 10" by simp
      ultimately show ?thesis by (metis div_mult_mod_eq)
    qed
  qed
qed

lemma partition_file_name_inj:
  "partition_file_name filename rank = partition_file_name filename rank' \<longleftrightarrow> rank = rank'"
  by (auto simp: partition_file_name_def dest: string_of_nat_inj)

lemma foldl_append_concat:
  "foldl (\<lambda>file i. file @ f i) acc xs = acc @ concat (map f xs)"
  by (induction xs arbitrary: acc) simp_all

lemma rows_slice:
  "s \<le> e \<Longrightarrow> concat (map (\<lambda>i. map (\<lambda>j. g (i * n + j)) [0..<n]) [s..<e]) = map g [s * n..<e * n]"
proof (induction e)
  case 0
  then show ?case by simp
next
  case (Suc e)
  show ?case
  proof (cases "s = Suc e")
    case True
    then show ?thesis by simp
  next
    case False
    with Suc.prems have se: "s \<le> e" by simp
    then have le: "s * n \<le> e * n" by (rule mult_le_mono1)
    have row: "map (\<lambda>j. g (e * n + j)) [0..<n] = map g [e * n..<e * n + n]"
      by (simp add: map_add_upt [symmetric] add.commute)
    from se have "concat (map (\<lambda>i. map (\<lambda>j. g (i * n + j)) [0..<n]) [s..<Suc e])
        = concat (map (\<lambda>i. map (\<lambda>j. g (i * n + j)) [0..<n]) [s..<e]) @ map (\<lambda>j. g (e * n + j)) [0..<n]"
      by simp
    also have "\<dots> = map g [s * n..<e * n] @ map g [e * n..<e * n + n]"
      by (simp only: Suc.IH [OF se] row)
    also have "\<dots> = map g ([s * n..<e * n] @ [e * n..<e * n + n])" by simp
    also from le have "[s * n..<e * n] @ [e * n..<e * n + n] = [s * n..<e * n + n]"
      by (rule upt_add_eq_append [symmetric])
    finally show ?thesis by (simp add: add.commute)
  qed
qed

lemma saved_rows_slice:
  assumes "rank < psize"
    and "\<And>i j. i \<in> row_partition rank psize n \<Longrightarrow> j < n \<Longrightarrow> m (matrix + (i * n + j)) = g (i * n + j)"
  shows "foldl (\<lambda>file i. file @ read_block m (matrix + i * n) n) []
           [start_row rank psize n ..< end_row rank psize n]
         = map g [start_row rank psize n * n ..< end_row rank psize n * n]"
proof -
  have "foldl (\<lambda>file i. file @ read_block m (matrix + i * n) n) []
           [start_row rank psize n ..< end_row rank psize n]
      = concat (map (\<lambda>i. read_block m (matrix + i * n) n) [start_row rank psize n ..< end_row rank psize n])"
    by (simp add: foldl_append_concat)
  also have "\<dots> = concat (map (\<lambda>i. map (\<lambda>j. g (i * n + j)) [0..<n])
      [start_row rank psize n ..< end_row rank psize n])"
  proof (rule arg_cong [where f = concat], rule map_cong [OF refl])
    fix i assume "i \<in> set [start_row rank psize n ..< end_row rank psize n]"
    then have i: "i \<in> row_partition rank psize n" by (simp add: row_partition_def)
    show "read_block m (matrix + i * n) n = map (\<lambda>j. g (i * n + j)) [0..<n]"
      unfolding read_block_def
      by (rule map_cong [OF refl]) (simp add: assms(2) [OF i] add.assoc)
  qed
  also have "\<dots> = map g [start_row rank psize n * n ..< end_row rank psize n * n]"
    by (rule rows_slice [OF start_le_end [OF assms(1)]])
  finally show ?thesis .
qed

lemma upt_join: "a \<le> b \<Longrightarrow> [0..<a] @ [a..<b] = [0..<b]"
  using upt_add_eq_append [of 0 a "b - a"] by simp

lemma slices_tile_prefix:
  "k < psize \<Longrightarrow>
   concat (map (\<lambda>r. [start_row r psize n * n ..< end_row r psize n * n]) [0..<k])
     = [0 ..< start_row k psize n * n]"
proof (induction k)
  case 0
  show ?case by (simp add: start_row_def)
next
  case (Suc k)
  then have k: "k < psize" and not_last: "k + 1 \<noteq> psize" by simp_all
  from not_last have next_start: "end_row k psize n = start_row (Suc k) psize n"
    by (simp add: end_row_def start_row_def)
  from start_le_end [OF k, of n] have "start_row k psize n * n \<le> end_row k psize n * n"
    by (rule mult_le_mono1)
  then have "[0..<start_row k psize n * n] @ [start_row k psize n * n ..< end_row k psize n * n]
      = [0..<end_row k psize n * n]"
    by (rule upt_join)
  with Suc.IH [OF k] show ?case by (simp add: next_start)
qed

lemma slices_tile:
  assumes "0 < psize"
  shows "concat (map (\<lambda>r. [start_row r psize n * n ..< end_row r psize n * n]) [0..<psize])
     = [0 ..< n * n]"
proof -
  from assms obtain k where k: "psize = Suc k" by (cases psize) auto
  then have last: "k < psize" "end_row k psize n = n" by (simp_all add: end_row_def)
  from start_le_end [OF last(1), of n] last(2) have "start_row k psize n * n \<le> n * n"
    by (simp add: mult_le_mono1)
  then have "[0..<start_row k psize n * n] @ [start_row k psize n * n ..< n * n] = [0..<n * n]"
    by (rule upt_join)
  with slices_tile_prefix [OF last(1), of n] last(2) show ?thesis
    by (simp add: k)
qed

text \<open>
  Claim C9. Let the ranks hold a matrix \<open>g\<close> distributed by rows: rank \<open>r\<close> has in its
  buffer the rows of its partition. When the partition file can be opened,
  \<^verbatim>\<open>save_matrix_distributed\<close> on rank \<open>rank < psize\<close> makes the file named
  \<open>filename_part<rank>.dat\<close> hold exactly the values of the rows from
  \<open>rank * (n div psize)\<close> up to, not including, \<open>(rank + 1) * (n div psize)\<close> (\<open>n\<close> on the
  last rank): row after row in ascending order, \<open>n\<close> values each, and no other value. The
  files of the ranks \<open>0, ..., psize - 1\<close> put one after the other are the whole matrix,
  every row once. The names of different ranks differ, no other file is changed, and
  nothing is written when the file cannot be opened.
\<close>

theorem save_matrix_distributed_partition_files:
  assumes "rank < psize"
    and "\<forall>r<psize. \<forall>i j. i \<in> row_partition r psize n \<and> j < n \<longrightarrow>
           ms r (matrix r + (i * n + j)) = g (i * n + j)"
  shows "save_matrix_distributed (ms rank) (matrix rank) n filename rank psize True fs
       = fs(partition_file_name filename rank \<mapsto>
            map g [rank * (n div psize) * n ..<
                   (if rank + 1 = psize then n else rank * (n div psize) + n div psize) * n])
     \<and> concat (map (\<lambda>r. the (save_matrix_distributed (ms r) (matrix r) n filename r psize True fs
                               (partition_file_name filename r))) [0..<psize])
       = map g [0..<n * n]
     \<and> (partition_file_name filename rank = partition_file_name filename rank') = (rank = rank')
     \<and> save_matrix_distributed (ms rank) (matrix rank) n filename rank psize False fs = fs"
proof -
  have saved: "save_matrix_distributed (ms r) (matrix r) n filename r psize True fs
      = fs(partition_file_name filename r \<mapsto> map g [start_row r psize n * n ..< end_row r psize n * n])"
    if "r < psize" for r
  proof -
    from assms(2) that have "\<And>i j. i \<in> row_partition r psize n \<Longrightarrow> j < n \<Longrightarrow>
        ms r (matrix r + (i * n + j)) = g (i * n + j)" by blast
    from saved_rows_slice [where m = "ms r" and matrix = "matrix r" and g = g, OF that this]
    show ?thesis
      by (simp add: save_matrix_distributed_def)
  qed
  have "map (\<lambda>r. the (save_matrix_distributed (ms r) (matrix r) n filename r psize True fs
                               (partition_file_name filename r))) [0..<psize]
      = map (\<lambda>r. map g [start_row r psize n * n ..< end_row r psize n * n]) [0..<psize]"
    by (rule map_cong [OF refl]) (simp add: saved)
  then have "concat (map (\<lambda>r. the (save_matrix_distributed (ms r) (matrix r) n filename r psize True fs
                               (partition_file_name filename r))) [0..<psize])
      = concat (map (\<lambda>r. map g [start_row r psize n * n ..< end_row r psize n * n]) [0..<psize])"
    by (rule arg_cong)
  also have "\<dots> = map g (concat (map (\<lambda>r. [start_row r psize n * n ..< end_row r psize n * n]) [0..<psize]))"
    by (simp only: map_concat map_map comp_def)
  also from assms(1) have "\<dots> = map g [0..<n * n]"
    by (simp add: slices_tile)
  finally have whole: "concat (map (\<lambda>r. the (save_matrix_distributed (ms r) (matrix r) n filename r
      psize True fs (partition_file_name filename r))) [0..<psize]) = map g [0..<n * n]" .
  have closed: "save_matrix_distributed (ms rank) (matrix rank) n filename rank psize False fs = fs"
    by (simp add: save_matrix_distributed_def)
  from saved [OF assms(1)] whole closed partition_file_name_inj [of filename rank rank']
  show ?thesis
    by (simp add: start_row_def end_row_def rows_per_proc_def)
qed

text \<open>Three rows on two ranks, the matrix \<open>0, 1, ..., 8\<close>: rank 1 writes rows 1 and 2.\<close>

theorem save_matrix_distributed_partition_files_witness:
  "(1::nat) < 2
   \<and> save_matrix_distributed (\<lambda>a. int a) 0 3 ''C'' 1 2 True Map.empty
       = [partition_file_name ''C'' 1 \<mapsto> map int [3..<9]]
   \<and> concat (map (\<lambda>r. the (save_matrix_distributed (\<lambda>a. int a) 0 3 ''C'' r 2 True Map.empty
                               (partition_file_name ''C'' r))) [0..<2])
       = map int [0..<9]
   \<and> partition_file_name ''C'' 1 = ''C_part1.dat''"
proof -
  have h1: "(1::nat) < 2" by simp
  have h2: "\<forall>r<(2::nat). \<forall>i j. i \<in> row_partition r 2 3 \<and> j < 3 \<longrightarrow>
      (\<lambda>r a. int a) r ((\<lambda>r. 0) r + (i * 3 + j)) = (\<lambda>k. int k) (i * 3 + j)"
    by simp
  note t = save_matrix_distributed_partition_files
    [where ms = "\<lambda>r a. int a" and matrix = "\<lambda>r. 0" and g = "\<lambda>k. int k" and filename = "''C''"
       and fs = Map.empty and rank' = 1, OF h1 h2]
  from t have a: "save_matrix_distributed (\<lambda>a. int a) 0 3 ''C'' 1 2 True Map.empty
       = [partition_file_name ''C'' 1 \<mapsto> map int [3..<9]]"
    by simp
  from t have b: "concat (map (\<lambda>r. the (save_matrix_distributed (\<lambda>a. int a) 0 3 ''C'' r 2 True Map.empty
                               (partition_file_name ''C'' r))) [0..<2])
       = map int [0..<9]"
    by simp
  have c: "partition_file_name ''C'' 1 = ''C_part1.dat''"
    by (simp add: partition_file_name_def string_of_nat.simps digit_char_def)
  from h1 a b c show ?thesis by blast
qed

end
